theory Spec2Isabelle
  imports Main "HOL-Library.Monad_Syntax"
begin

section \<open>Data model\<close>

text \<open>
  The three structs of the Go program (\<^verbatim>\<open>LogEntry\<close>, \<^verbatim>\<open>LogData\<close>,
  \<^verbatim>\<open>RootHashRecord\<close>). A Go string is a sequence of bytes, which is what
  \<^typ>\<open>string\<close> is; a Go map is a partial function. Go's \<^verbatim>\<open>int\<close> is taken
  as the 64-bit signed integer of the usual build targets; the program performs no
  arithmetic that could wrap, so heights are kept as \<^typ>\<open>int\<close> and the only place
  where the width matters, the range check of \<^verbatim>\<open>strconv.Atoi\<close>, is written out.
\<close>

record LogEntry =
  metadata :: "string \<rightharpoonup> string"
  payload :: string

record LogData =
  Height :: int
  Hash :: string
  Root :: string
  NumTxs :: int
  PodName :: string

record RootHashRecord =
  PodName :: string
  Root :: string

section \<open>The record extractor: \<^verbatim>\<open>parseCommitLog\<close>\<close>

subsection \<open>Character classes of the regular expression\<close>

text \<open>Go's \<^verbatim>\<open>\d\<close> is \<^verbatim>\<open>[0-9]\<close> and \<^verbatim>\<open>\s\<close> is \<^verbatim>\<open>[\t\n\f\r ]\<close>.\<close>

definition is_digit :: "char \<Rightarrow> bool" where
  "is_digit c = (48 \<le> (of_char c :: int) \<and> (of_char c :: int) \<le> 57)"

definition is_hex :: "char \<Rightarrow> bool" where
  "is_hex c =
     (is_digit c
      \<or> (97 \<le> (of_char c :: int) \<and> (of_char c :: int) \<le> 102)
      \<or> (65 \<le> (of_char c :: int) \<and> (of_char c :: int) \<le> 70))"

definition is_space :: "char \<Rightarrow> bool" where
  "is_space c =
     ((of_char c :: int) = 9 \<or> (of_char c :: int) = 10 \<or> (of_char c :: int) = 12
      \<or> (of_char c :: int) = 13 \<or> (of_char c :: int) = 32)"

subsection \<open>Matching the pattern\<close>

text \<open>
  The pattern of \<^verbatim>\<open>parseCommitLog\<close> is
  \<^verbatim>\<open>finalizing commit of block\s+module=consensus height=(\d+) hash=([0-9a-fA-F]+) root=([0-9a-fA-F]+) num_txs=(\d+)\<close>.
  It is a concatenation of literals and greedy one-or-more repetitions of a
  character class, and every repetition but the last is followed by a character
  outside its class, so a match attempt at a fixed position never backtracks:
  \<open>literal\<close> consumes a literal and \<open>class_plus\<close> the longest non-empty run of
  a class.
\<close>

fun literal :: "string \<Rightarrow> string \<Rightarrow> string option" where
  "literal [] s = Some s"
| "literal (p # ps) [] = None"
| "literal (p # ps) (c # cs) = (if p = c then literal ps cs else None)"

definition class_plus :: "(char \<Rightarrow> bool) \<Rightarrow> string \<Rightarrow> (string \<times> string) option" where
  "class_plus P s =
     (if takeWhile P s = [] then None else Some (takeWhile P s, dropWhile P s))"

text \<open>A match attempt at the start of \<open>s\<close>; the result holds the four capture groups.\<close>

definition match_here :: "string \<Rightarrow> (string \<times> string \<times> string \<times> string) option" where
  "match_here s =
     do {
       s1 \<leftarrow> literal ''finalizing commit of block'' s;
       (ws, s2) \<leftarrow> class_plus is_space s1;
       s3 \<leftarrow> literal ''module=consensus height='' s2;
       (h, s4) \<leftarrow> class_plus is_digit s3;
       s5 \<leftarrow> literal '' hash='' s4;
       (hs, s6) \<leftarrow> class_plus is_hex s5;
       s7 \<leftarrow> literal '' root='' s6;
       (rt, s8) \<leftarrow> class_plus is_hex s7;
       s9 \<leftarrow> literal '' num_txs='' s8;
       (n, s10) \<leftarrow> class_plus is_digit s9;
       Some (h, hs, rt, n)
     }"

text \<open>
  \<^verbatim>\<open>re.FindStringSubmatch\<close> returns the leftmost match: the pattern is tried at
  every position of the line from left to right. \<open>None\<close> stands for the empty
  slice the Go function returns when nothing matches.
\<close>

fun FindStringSubmatch :: "string \<Rightarrow> (string \<times> string \<times> string \<times> string) option" where
  "FindStringSubmatch [] = match_here []"
| "FindStringSubmatch (c # cs) =
     (case match_here (c # cs) of
        Some m \<Rightarrow> Some m
      | None \<Rightarrow> FindStringSubmatch cs)"

subsection \<open>\<^verbatim>\<open>strconv.Atoi\<close>\<close>

text \<open>
  The standard library's \<^verbatim>\<open>strconv.Atoi\<close> for a 64-bit \<^verbatim>\<open>int\<close>, as
  \<^verbatim>\<open>strconv.ParseInt(s, 10, 0)\<close> computes it (the fast path of \<^verbatim>\<open>Atoi\<close> for
  short strings gives the same answers). After an optional sign, the loop of
  \<^verbatim>\<open>ParseUint\<close> reads the bytes from left to right: the first byte that is not a
  decimal digit is a syntax error, and a value that leaves the unsigned 64 bits is a
  range error as soon as it does. The signed range is checked on the result.
\<close>

datatype NumError = ErrSyntax | ErrRange

definition digit_val :: "char \<Rightarrow> int" where
  "digit_val c = of_char c - 48"

definition decimal :: "string \<Rightarrow> int" where
  "decimal ds = foldl (\<lambda>a c. 10 * a + digit_val c) 0 ds"

fun ParseUint_loop :: "int \<Rightarrow> string \<Rightarrow> NumError + int" where
  "ParseUint_loop n [] = Inr n"
| "ParseUint_loop n (c # cs) =
     (if is_digit c then
        (if 1844674407370955162 \<le> n then Inl ErrRange
         else if 18446744073709551615 < 10 * n + digit_val c then Inl ErrRange
         else ParseUint_loop (10 * n + digit_val c) cs)
      else Inl ErrSyntax)"

definition ParseUint :: "string \<Rightarrow> NumError + int" where
  "ParseUint s = (if s = [] then Inl ErrSyntax else ParseUint_loop 0 s)"

definition Atoi_digits :: "bool \<Rightarrow> string \<Rightarrow> NumError + int" where
  "Atoi_digits neg ds =
     (case ParseUint ds of
        Inl ErrSyntax \<Rightarrow> Inl ErrSyntax
      | Inl ErrRange \<Rightarrow> Inl ErrRange
      | Inr un \<Rightarrow>
          if neg then (if 2 ^ 63 < un then Inl ErrRange else Inr (- un))
          else (if 2 ^ 63 \<le> un then Inl ErrRange else Inr un))"

definition Atoi :: "string \<Rightarrow> NumError + int" where
  "Atoi s =
     (case s of
        [] \<Rightarrow> Inl ErrSyntax
      | c # cs \<Rightarrow>
          if c = CHR ''-'' then Atoi_digits True cs
          else if c = CHR ''+'' then Atoi_digits False cs
          else Atoi_digits False s)"

subsection \<open>\<^verbatim>\<open>parseCommitLog\<close>\<close>

text \<open>The three error returns of \<^verbatim>\<open>parseCommitLog\<close>, in the order of the source.\<close>

datatype ParseError = NoMatch | ParsingHeight NumError | ParsingNumTxs NumError

definition parseCommitLog :: "string \<Rightarrow> string \<Rightarrow> ParseError + LogData" where
  "parseCommitLog podName logEntry =
     (case FindStringSubmatch logEntry of
        None \<Rightarrow> Inl NoMatch
      | Some (m1, m2, m3, m4) \<Rightarrow>
          (case Atoi m1 of
             Inl err \<Rightarrow> Inl (ParsingHeight err)
           | Inr height \<Rightarrow>
               (case Atoi m4 of
                  Inl err \<Rightarrow> Inl (ParsingNumTxs err)
                | Inr numTxs \<Rightarrow>
                    Inr \<lparr>Height = height, Hash = m2, LogData.Root = m3,
                         NumTxs = numTxs, LogData.PodName = podName\<rparr>)))"

section \<open>The reconciliation engine\<close>

subsection \<open>Effects and process status\<close>

text \<open>
  What the worker does to the outside world, in the order it does it:
  \<^verbatim>\<open>log.Print\<close>, \<^verbatim>\<open>postToDiscord\<close> and \<^verbatim>\<open>log.Fatal\<close>. The last one
  writes its message and ends the whole process with \<^verbatim>\<open>os.Exit(1)\<close>; an
  out-of-range slice index is a run-time panic, which ends the process with status 2.
\<close>

datatype Effect = LogPrint string | PostToDiscord string | LogFatal string

datatype ProcStatus = Running | Exit int | IndexPanic nat nat

fun exit_code :: "ProcStatus \<Rightarrow> int option" where
  "exit_code Running = None"
| "exit_code (Exit n) = Some n"
| "exit_code (IndexPanic i n) = Some 2"

record TmWorker =
  rootCache :: "int \<rightharpoonup> RootHashRecord list"
  effects :: "Effect list"
  status :: ProcStatus

definition emit :: "Effect \<Rightarrow> ('a TmWorker_scheme) \<Rightarrow> ('a TmWorker_scheme)" where
  "emit e w = w\<lparr>effects := effects w @ [e]\<rparr>"

subsection \<open>Formatting\<close>

text \<open>The verb \<^verbatim>\<open>%d\<close> of \<^verbatim>\<open>fmt.Sprintf\<close>: decimal digits, with a minus sign.\<close>

function digits :: "int \<Rightarrow> string" where
  "digits n =
     (if n < 10 then [char_of (48 + n)]
      else digits (n div 10) @ [char_of (48 + n mod 10)])"
  by pat_completeness auto
termination
  by (relation "measure nat") auto

definition fmt_d :: "int \<Rightarrow> string" where
  "fmt_d i = (if i < 0 then CHR ''-'' # digits (- i) else digits i)"

text \<open>Go's \<^verbatim>\<open>%\<close> truncates towards zero.\<close>

definition go_rem :: "int \<Rightarrow> int \<Rightarrow> int" where
  "go_rem a b = a - b * (sgn a * sgn b * (\<bar>a\<bar> div \<bar>b\<bar>))"

definition status_line :: "LogData \<Rightarrow> string" where
  "status_line commitLog =
     LogData.PodName commitLog @ '', at height '' @ fmt_d (Height commitLog)
       @ '', has apphash '' @ LogData.Root commitLog"

definition progress_notice :: "LogData \<Rightarrow> string" where
  "progress_notice commitLog =
     ''**'' @ LogData.PodName commitLog @ ''**, at height **'' @ fmt_d (Height commitLog)
       @ ''**, has apphash _'' @ LogData.Root commitLog @ ''_''"

subsection \<open>The current worker (\<^verbatim>\<open>src/unnamed/part_002\<close>)\<close>

text \<open>\<^verbatim>\<open>consistentRecords\<close>, lines 274-286: the guard on the empty slice, then the loop.\<close>

fun consistentRecords_loop :: "RootHashRecord \<Rightarrow> RootHashRecord list \<Rightarrow> bool" where
  "consistentRecords_loop current [] = True"
| "consistentRecords_loop current (r # rs) =
     (if RootHashRecord.Root current \<noteq> RootHashRecord.Root r then False
      else consistentRecords_loop current rs)"

definition consistentRecords :: "RootHashRecord \<Rightarrow> RootHashRecord list \<Rightarrow> bool" where
  "consistentRecords current records =
     (if length records = 0 then True else consistentRecords_loop current records)"

text \<open>\<^verbatim>\<open>knownRootHashesString\<close>, lines 288-294: one line per record, in order.\<close>

fun knownRootHashesString :: "RootHashRecord list \<Rightarrow> string" where
  "knownRootHashesString [] = []"
| "knownRootHashesString (r # rs) =
     (RootHashRecord.PodName r @ '': '' @ RootHashRecord.Root r @ ''\<newline>'')
       @ knownRootHashesString rs"

definition mismatch_text :: "int \<Rightarrow> RootHashRecord list \<Rightarrow> string" where
  "mismatch_text height prev =
     (''ROOT MISMATCH DETECTED AT BLOCK '' @ fmt_d height) @ ''\<newline>''
       @ knownRootHashesString prev"

text \<open>
  The body of the worker's loop from the point where a line has been parsed
  (lines 190-231). The slice \<^verbatim>\<open>append\<close> reads the map again at the same key,
  which is \<open>prev\<close>.
\<close>

definition handleCommit :: "TmWorker \<Rightarrow> LogData \<Rightarrow> TmWorker" where
  "handleCommit w commitLog =
     (let recrd = \<lparr>RootHashRecord.PodName = LogData.PodName commitLog,
                    RootHashRecord.Root = LogData.Root commitLog\<rparr>;
          w1 = emit (LogPrint (status_line commitLog)) w;
          w2 = (if go_rem (Height commitLog) 1000 = 0
                then emit (PostToDiscord (progress_notice commitLog)) w1 else w1)
      in case rootCache w2 (Height commitLog) of
           Some prev \<Rightarrow>
             if \<not> consistentRecords recrd prev then
               (let err_str = mismatch_text (Height commitLog) prev;
                    disc_msg = ''@erwanor : '' @ err_str
                in (emit (LogFatal err_str) (emit (PostToDiscord disc_msg) w2))
                     \<lparr>status := Exit 1\<rparr>)
             else w2\<lparr>rootCache := (rootCache w2)(Height commitLog \<mapsto> prev @ [recrd])\<rparr>
         | None \<Rightarrow> w2\<lparr>rootCache := (rootCache w2)(Height commitLog \<mapsto> [recrd])\<rparr>)"

text \<open>
  A \<^verbatim>\<open>for ... range\<close> over the entries received so far. The process is gone after
  \<^verbatim>\<open>log.Fatal\<close> or a panic, so nothing later is looked at.
\<close>

fun range_loop :: "('w \<Rightarrow> bool) \<Rightarrow> ('w \<Rightarrow> 'a \<Rightarrow> 'w) \<Rightarrow> 'w \<Rightarrow> 'a list \<Rightarrow> 'w" where
  "range_loop alive body w [] = w"
| "range_loop alive body w (x # xs) =
     (let w' = body w x in if alive w' then range_loop alive body w' xs else w')"

definition alive :: "('a TmWorker_scheme) \<Rightarrow> bool" where
  "alive w = (status w = Running)"

text \<open>The head of the loop body (lines 180-188): entries that are not commits are skipped.\<close>

definition tm_step :: "TmWorker \<Rightarrow> LogEntry \<Rightarrow> TmWorker" where
  "tm_step w logEntry =
     (case metadata logEntry ''pod_name'' of
        None \<Rightarrow> w
      | Some podName \<Rightarrow>
          (case parseCommitLog podName (payload logEntry) of
             Inl err \<Rightarrow> w
           | Inr commitLog \<Rightarrow> handleCommit w commitLog))"

definition tm_init :: TmWorker where
  "tm_init = \<lparr>rootCache = Map.empty, effects = [], status = Running\<rparr>"

definition tm_worker :: "LogEntry list \<Rightarrow> TmWorker" where
  "tm_worker entries = range_loop alive tm_step tm_init entries"

text \<open>The same loop seen from the commit events, the entries that parse.\<close>

definition reconcile :: "LogData list \<Rightarrow> TmWorker" where
  "reconcile commits = range_loop alive handleCommit tm_init commits"

subsection \<open>The worker of \<^verbatim>\<open>src/main.go\<close>, with the chain-restart branch\<close>

text \<open>
  \<^verbatim>\<open>src/main.go\<close> keeps one more variable, \<^verbatim>\<open>confirmedHeight\<close>, announces
  every 4320th height, compares with the first cached record only, and has a
  chain-restart branch (lines 198-218). A slice index is checked at run time.
\<close>

record TmWorkerRestart = TmWorker +
  confirmedHeight :: int

definition restart_text :: "int \<Rightarrow> int \<Rightarrow> RootHashRecord \<Rightarrow> RootHashRecord \<Rightarrow> string" where
  "restart_text height confirmed p0 p1 =
     ''detected chain restart, current height='' @ fmt_d height
       @ '', previous tip: height='' @ fmt_d confirmed @ '', ''
       @ RootHashRecord.PodName p0 @ '':'' @ RootHashRecord.Root p0 @ '' and ''
       @ RootHashRecord.PodName p1 @ '':'' @ RootHashRecord.Root p1"

definition mismatch_text_restart :: "int \<Rightarrow> RootHashRecord \<Rightarrow> RootHashRecord \<Rightarrow> string" where
  "mismatch_text_restart height p0 recrd =
     ''root mismatch detected at height '' @ fmt_d height @ '', between:\<newline>''
       @ RootHashRecord.PodName p0 @ '': '' @ RootHashRecord.Root p0 @ ''\<newline>''
       @ RootHashRecord.PodName recrd @ '': '' @ RootHashRecord.Root recrd @ ''\<newline>''"

definition handleCommit_restart :: "TmWorkerRestart \<Rightarrow> LogData \<Rightarrow> TmWorkerRestart" where
  "handleCommit_restart w commitLog =
     (let recrd = \<lparr>RootHashRecord.PodName = LogData.PodName commitLog,
                    RootHashRecord.Root = LogData.Root commitLog\<rparr>;
          w1 = emit (LogPrint (status_line commitLog)) w;
          w2 = (if go_rem (Height commitLog) 4320 = 0
                then emit (PostToDiscord (progress_notice commitLog)) w1 else w1)
      in case rootCache w2 (Height commitLog) of
           Some prev \<Rightarrow>
             if Height commitLog < confirmedHeight w2 then
               (if length prev \<le> 0 then w2\<lparr>status := IndexPanic 0 (length prev)\<rparr>
                else if length prev \<le> 1 then w2\<lparr>status := IndexPanic 1 (length prev)\<rparr>
                else
                  (emit (PostToDiscord
                     (restart_text (Height commitLog) (confirmedHeight w2) (prev ! 0) (prev ! 1))) w2)
                  \<lparr>rootCache := [Height commitLog \<mapsto> [recrd]]\<rparr>)
             else if length prev \<le> 0 then w2\<lparr>status := IndexPanic 0 (length prev)\<rparr>
             else if RootHashRecord.Root (prev ! 0) \<noteq> RootHashRecord.Root recrd then
               (let err_str = mismatch_text_restart (Height commitLog) (prev ! 0) recrd;
                    disc_msg = ''@erwanor : '' @ err_str
                in (emit (LogFatal err_str) (emit (PostToDiscord disc_msg) w2))
                     \<lparr>status := Exit 1\<rparr>)
             else w2\<lparr>rootCache := (rootCache w2)(Height commitLog \<mapsto> prev @ [recrd]),
                      confirmedHeight := Height commitLog\<rparr>
         | None \<Rightarrow> w2\<lparr>rootCache := (rootCache w2)(Height commitLog \<mapsto> [recrd])\<rparr>)"

definition tm_step_restart :: "TmWorkerRestart \<Rightarrow> LogEntry \<Rightarrow> TmWorkerRestart" where
  "tm_step_restart w logEntry =
     (case metadata logEntry ''pod_name'' of
        None \<Rightarrow> w
      | Some podName \<Rightarrow>
          (case parseCommitLog podName (payload logEntry) of
             Inl err \<Rightarrow> w
           | Inr commitLog \<Rightarrow> handleCommit_restart w commitLog))"

definition tm_init_restart :: TmWorkerRestart where
  "tm_init_restart =
     \<lparr>rootCache = Map.empty, effects = [], status = Running, confirmedHeight = 0\<rparr>"

definition tm_worker_restart :: "LogEntry list \<Rightarrow> TmWorkerRestart" where
  "tm_worker_restart entries = range_loop alive tm_step_restart tm_init_restart entries"

definition reconcile_restart :: "LogData list \<Rightarrow> TmWorkerRestart" where
  "reconcile_restart commits = range_loop alive handleCommit_restart tm_init_restart commits"

section \<open>Vocabulary of the properties\<close>

subsection \<open>The commit-line grammar\<close>

text \<open>
  The language of the pattern, written as a decomposition of the text: the marker,
  a non-empty run of white space, and the four labelled fields. A line is in the
  grammar when the text occurs somewhere in it.
\<close>

definition commit_text :: "string \<Rightarrow> string \<Rightarrow> string \<Rightarrow> string \<Rightarrow> string \<Rightarrow> string" where
  "commit_text ws h hs rt n =
     ''finalizing commit of block'' @ ws @ ''module=consensus height='' @ h
       @ '' hash='' @ hs @ '' root='' @ rt @ '' num_txs='' @ n"

definition fields_ok :: "string \<Rightarrow> string \<Rightarrow> string \<Rightarrow> string \<Rightarrow> string \<Rightarrow> bool" where
  "fields_ok ws h hs rt n =
     (ws \<noteq> [] \<and> list_all is_space ws \<and> h \<noteq> [] \<and> list_all is_digit h
      \<and> hs \<noteq> [] \<and> list_all is_hex hs \<and> rt \<noteq> [] \<and> list_all is_hex rt
      \<and> n \<noteq> [] \<and> list_all is_digit n)"

definition matches_at :: "string \<Rightarrow> bool" where
  "matches_at s =
     (\<exists>ws h hs rt n post. s = commit_text ws h hs rt n @ post \<and> fields_ok ws h hs rt n)"

definition commit_line_grammar :: "string \<Rightarrow> bool" where
  "commit_line_grammar line = (\<exists>pre s. line = pre @ s \<and> matches_at s)"

text \<open>
  The grammar in the words of the specification (section 6): the marker, then the
  labelled fields, all separated by single spaces.
\<close>

definition spec_matches_at :: "string \<Rightarrow> bool" where
  "spec_matches_at s =
     (\<exists>h hs rt n post. s = commit_text '' '' h hs rt n @ post \<and> fields_ok '' '' h hs rt n)"

definition spec_commit_line_grammar :: "string \<Rightarrow> bool" where
  "spec_commit_line_grammar line = (\<exists>pre s. line = pre @ s \<and> spec_matches_at s)"

subsection \<open>Commit events and what the cache should hold\<close>

text \<open>The commit events of a list of log entries: those the head of the loop lets through.\<close>

definition commit_of :: "LogEntry \<Rightarrow> LogData option" where
  "commit_of logEntry =
     (case metadata logEntry ''pod_name'' of
        None \<Rightarrow> None
      | Some podName \<Rightarrow>
          (case parseCommitLog podName (payload logEntry) of
             Inl err \<Rightarrow> None
           | Inr commitLog \<Rightarrow> Some commitLog))"

definition commits_of :: "LogEntry list \<Rightarrow> LogData list" where
  "commits_of entries = List.map_filter commit_of entries"

definition report_of :: "LogData \<Rightarrow> RootHashRecord" where
  "report_of commitLog =
     \<lparr>RootHashRecord.PodName = LogData.PodName commitLog,
      RootHashRecord.Root = LogData.Root commitLog\<rparr>"

definition reports_at :: "int \<Rightarrow> LogData list \<Rightarrow> RootHashRecord list" where
  "reports_at h commits = map report_of (filter (\<lambda>c. Height c = h) commits)"

definition cache_of :: "LogData list \<Rightarrow> (int \<rightharpoonup> RootHashRecord list)" where
  "cache_of commits =
     (\<lambda>h. if reports_at h commits = [] then None else Some (reports_at h commits))"

text \<open>What the worker writes for an event before it looks at the cache (lines 195-201).\<close>

definition notices :: "int \<Rightarrow> LogData \<Rightarrow> Effect list" where
  "notices modulus commitLog =
     LogPrint (status_line commitLog)
       # (if Height commitLog mod modulus = 0
          then [PostToDiscord (progress_notice commitLog)] else [])"

fun is_progress :: "Effect \<Rightarrow> bool" where
  "is_progress (PostToDiscord m) = (take 2 m = ''**'')"
| "is_progress (LogPrint m) = False"
| "is_progress (LogFatal m) = False"

fun is_alert :: "Effect \<Rightarrow> bool" where
  "is_alert (PostToDiscord m) = (take 11 m = ''@erwanor : '')"
| "is_alert (LogPrint m) = False"
| "is_alert (LogFatal m) = False"

fun is_fatal :: "Effect \<Rightarrow> bool" where
  "is_fatal (LogFatal m) = True"
| "is_fatal (PostToDiscord m) = False"
| "is_fatal (LogPrint m) = False"

fun is_status_line :: "Effect \<Rightarrow> bool" where
  "is_status_line (LogPrint m) = True"
| "is_status_line (PostToDiscord m) = False"
| "is_status_line (LogFatal m) = False"

text \<open>
  An event agrees with earlier ones when none of them reports another root at its
  height; a sequence is free of conflicts when every event agrees with those
  before it.
\<close>

definition agrees_with :: "LogData \<Rightarrow> LogData list \<Rightarrow> bool" where
  "agrees_with c commits =
     list_all (\<lambda>d. if Height d = Height c then LogData.Root d = LogData.Root c else True) commits"

definition conflict_free :: "LogData list \<Rightarrow> bool" where
  "conflict_free commits =
     list_all (\<lambda>k. agrees_with (commits ! k) (take k commits)) [0..<length commits]"

text \<open>The state of a worker that has accepted all of a list of commit events.\<close>

definition accepted :: "LogData list \<Rightarrow> TmWorker" where
  "accepted cs =
     \<lparr>rootCache = cache_of cs, effects = concat (map (notices 1000) cs), status = Running\<rparr>"

subsection \<open>Log entries for the examples\<close>

definition commit_entry :: "string \<Rightarrow> int \<Rightarrow> string \<Rightarrow> LogEntry" where
  "commit_entry pod height root =
     \<lparr>metadata = [''pod_name'' \<mapsto> pod],
      payload = ''finalizing commit of block module=consensus height='' @ fmt_d height
        @ '' hash=0A1B root='' @ root @ '' num_txs=0''\<rparr>"

section \<open>The record extractor agrees with the grammar\<close>

lemma literal_append: "literal p (p @ r) = Some r"
  by (induction p) auto

lemma literal_Some: "literal p s = Some r \<Longrightarrow> s = p @ r"
  by (induction p s rule: literal.induct) (auto split: if_splits)

lemma takeWhile_dropWhile_Nil: "takeWhile P (dropWhile P s) = []"
  by (induction s) auto

lemma class_plus_append:
  "m \<noteq> [] \<Longrightarrow> list_all P m \<Longrightarrow>
   class_plus P (m @ r) = Some (m @ takeWhile P r, dropWhile P r)"
  by (cases m) (auto simp: class_plus_def list_all_iff takeWhile_append2 dropWhile_append2)

lemma class_plus_Some:
  "class_plus P s = Some (m, r) \<Longrightarrow>
   s = m @ r \<and> m \<noteq> [] \<and> list_all P m \<and> takeWhile P r = []"
  by (auto simp: class_plus_def list_all_iff takeWhile_dropWhile_Nil split: if_splits dest: set_takeWhileD)

lemma match_here_complete:
  assumes "fields_ok ws h hs rt n"
  shows "match_here (commit_text ws h hs rt n @ post) = Some (h, hs, rt, n @ takeWhile is_digit post)"
  using assms
  by (simp add: match_here_def commit_text_def fields_ok_def literal_append class_plus_append
      is_space_def is_digit_def is_hex_def)

lemma match_here_sound:
  assumes "match_here s = Some (h, hs, rt, n)"
  shows "\<exists>ws post. s = commit_text ws h hs rt n @ post \<and> fields_ok ws h hs rt n
            \<and> takeWhile is_digit post = []"
proof -
  from assms obtain s1 ws s2 s3 s4 s5 s6 s7 s8 s9 s10 where
    l1: "literal ''finalizing commit of block'' s = Some s1" and
    c1: "class_plus is_space s1 = Some (ws, s2)" and
    l2: "literal ''module=consensus height='' s2 = Some s3" and
    c2: "class_plus is_digit s3 = Some (h, s4)" and
    l3: "literal '' hash='' s4 = Some s5" and
    c3: "class_plus is_hex s5 = Some (hs, s6)" and
    l4: "literal '' root='' s6 = Some s7" and
    c4: "class_plus is_hex s7 = Some (rt, s8)" and
    l5: "literal '' num_txs='' s8 = Some s9" and
    c5: "class_plus is_digit s9 = Some (n, s10)"
    unfolding match_here_def
    by (auto split: Option.bind_splits prod.splits)
  have "s = commit_text ws h hs rt n @ s10"
    using literal_Some[OF l1] literal_Some[OF l2] literal_Some[OF l3] literal_Some[OF l4]
      literal_Some[OF l5] class_plus_Some[OF c1] class_plus_Some[OF c2] class_plus_Some[OF c3]
      class_plus_Some[OF c4] class_plus_Some[OF c5]
    by (simp add: commit_text_def)
  moreover have "fields_ok ws h hs rt n"
    using class_plus_Some[OF c1] class_plus_Some[OF c2] class_plus_Some[OF c3]
      class_plus_Some[OF c4] class_plus_Some[OF c5]
    by (simp add: fields_ok_def)
  moreover have "takeWhile is_digit s10 = []"
    using class_plus_Some[OF c5] by simp
  ultimately show ?thesis by blast
qed

lemma matches_at_iff: "matches_at s \<longleftrightarrow> match_here s \<noteq> None"
proof
  assume "matches_at s"
  then show "match_here s \<noteq> None"
    by (auto simp: matches_at_def match_here_complete)
next
  assume "match_here s \<noteq> None"
  then obtain h hs rt n where "match_here s = Some (h, hs, rt, n)"
    by (cases "match_here s") auto
  from match_here_sound[OF this] show "matches_at s"
    unfolding matches_at_def by blast
qed

lemma FindStringSubmatch_None:
  "FindStringSubmatch line = None \<longleftrightarrow> (\<forall>pre s. line = pre @ s \<longrightarrow> match_here s = None)"
proof (induction line)
  case Nil
  then show ?case by simp
next
  case (Cons c cs)
  show ?case
  proof
    assume a: "FindStringSubmatch (c # cs) = None"
    then have h: "match_here (c # cs) = None" and t: "FindStringSubmatch cs = None"
      by (auto split: option.splits)
    show "\<forall>pre s. c # cs = pre @ s \<longrightarrow> match_here s = None"
    proof (intro allI impI)
      fix pre s assume e: "c # cs = pre @ s"
      show "match_here s = None"
      proof (cases pre)
        case Nil
        with e h show ?thesis by simp
      next
        case (Cons p ps)
        with e have "cs = ps @ s" by simp
        with t Cons.IH show ?thesis by blast
      qed
    qed
  next
    assume a: "\<forall>pre s. c # cs = pre @ s \<longrightarrow> match_here s = None"
    then have h: "match_here (c # cs) = None" by (metis append_Nil)
    have "\<forall>pre s. cs = pre @ s \<longrightarrow> match_here s = None"
      using a by (metis append_Cons)
    with Cons.IH have "FindStringSubmatch cs = None" by blast
    with h show "FindStringSubmatch (c # cs) = None" by simp
  qed
qed

lemma FindStringSubmatch_leftmost:
  assumes "\<forall>k<length pre. match_here (drop k (pre @ s)) = None"
    and "match_here s = Some m"
  shows "FindStringSubmatch (pre @ s) = Some m"
  using assms
proof (induction pre)
  case Nil
  then show ?case by (cases s) auto
next
  case (Cons p ps)
  from Cons.prems(1) have "match_here (drop 0 ((p # ps) @ s)) = None" by blast
  then have h: "match_here (p # ps @ s) = None" by simp
  have "\<forall>k<length ps. match_here (drop k (ps @ s)) = None"
  proof (intro allI impI)
    fix k assume "k < length ps"
    then have "Suc k < length (p # ps)" by simp
    with Cons.prems(1) have "match_here (drop (Suc k) ((p # ps) @ s)) = None" by blast
    then show "match_here (drop k (ps @ s)) = None" by simp
  qed
  with Cons.IH Cons.prems(2) have "FindStringSubmatch (ps @ s) = Some m" by blast
  with h show ?case by simp
qed

lemma FindStringSubmatch_Some:
  assumes "FindStringSubmatch line = Some m"
  shows "\<exists>pre s. line = pre @ s \<and> match_here s = Some m"
  using assms
proof (induction line)
  case Nil
  then show ?case by simp
next
  case (Cons c cs)
  show ?case
  proof (cases "match_here (c # cs)")
    case None
    with Cons.prems have "FindStringSubmatch cs = Some m" by simp
    with Cons.IH obtain pre s where "cs = pre @ s" "match_here s = Some m" by blast
    then have "c # cs = (c # pre) @ s \<and> match_here s = Some m" by simp
    then show ?thesis by blast
  next
    case (Some a)
    with Cons.prems have "match_here (c # cs) = Some m" by simp
    then have "c # cs = [] @ (c # cs) \<and> match_here (c # cs) = Some m" by simp
    then show ?thesis by blast
  qed
qed

lemma commit_line_grammar_iff:
  "commit_line_grammar line \<longleftrightarrow> FindStringSubmatch line \<noteq> None"
proof
  assume "commit_line_grammar line"
  then obtain pre s where line: "line = pre @ s" and m: "matches_at s"
    unfolding commit_line_grammar_def by (elim exE conjE)
  from m have nn: "match_here s \<noteq> None" by (rule matches_at_iff[THEN iffD1])
  show "FindStringSubmatch line \<noteq> None"
  proof
    assume "FindStringSubmatch line = None"
    then have "\<forall>pre s. line = pre @ s \<longrightarrow> match_here s = None"
      by (rule FindStringSubmatch_None[THEN iffD1])
    then have "match_here s = None" using line by (elim allE impE)
    with nn show False by (rule notE)
  qed
next
  assume "FindStringSubmatch line \<noteq> None"
  then obtain m where "FindStringSubmatch line = Some m" by (cases "FindStringSubmatch line") auto
  from FindStringSubmatch_Some[OF this] obtain pre s where
    l: "line = pre @ s" and mh: "match_here s = Some m" by (elim exE conjE)
  from mh have "match_here s \<noteq> None" by simp
  then have "matches_at s" by (rule matches_at_iff[THEN iffD2])
  with l have "line = pre @ s \<and> matches_at s" by (rule conjI)
  then show "commit_line_grammar line"
    unfolding commit_line_grammar_def by (intro exI)
qed


lemma digit_val_range: "is_digit c \<Longrightarrow> 0 \<le> digit_val c \<and> digit_val c \<le> 9"
  by (auto simp: is_digit_def digit_val_def)

lemma foldl_digits_ge:
  "0 \<le> n \<Longrightarrow> list_all is_digit ds \<Longrightarrow> n \<le> foldl (\<lambda>a c. 10 * a + digit_val c) n ds"
proof (induction ds arbitrary: n)
  case Nil
  then show ?case by simp
next
  case (Cons c cs)
  from Cons.prems have d: "0 \<le> digit_val c" by (simp add: digit_val_range)
  with Cons.prems have "0 \<le> 10 * n + digit_val c" by simp
  with Cons.IH Cons.prems have "10 * n + digit_val c
      \<le> foldl (\<lambda>a c. 10 * a + digit_val c) (10 * n + digit_val c) cs"
    by simp
  with d Cons.prems(1) show ?case by simp
qed

lemma ParseUint_loop_digits:
  "0 \<le> n \<Longrightarrow> n \<le> 18446744073709551615 \<Longrightarrow> list_all is_digit ds \<Longrightarrow>
   ParseUint_loop n ds =
     (if 18446744073709551615 < foldl (\<lambda>a c. 10 * a + digit_val c) n ds then Inl ErrRange
      else Inr (foldl (\<lambda>a c. 10 * a + digit_val c) n ds))"
proof (induction ds arbitrary: n)
  case Nil
  then show ?case
    by simp
next
  case (Cons c cs)
  from Cons.prems have c: "is_digit c" and cs: "list_all is_digit cs" by simp_all
  from c have d: "0 \<le> digit_val c" by (simp add: digit_val_range)
  with Cons.prems(1) have n1: "0 \<le> 10 * n + digit_val c" by simp
  from foldl_digits_ge[OF n1 cs]
  have ge: "10 * n + digit_val c \<le> foldl (\<lambda>a c. 10 * a + digit_val c) (10 * n + digit_val c) cs" .
  show ?case
  proof (cases "1844674407370955162 \<le> n")
    case True
    with d ge have "18446744073709551615 < foldl (\<lambda>a c. 10 * a + digit_val c) (10 * n + digit_val c) cs"
      by simp
    with True c show ?thesis by simp
  next
    case False
    show ?thesis
    proof (cases "18446744073709551615 < 10 * n + digit_val c")
      case True
      with ge have "18446744073709551615 < foldl (\<lambda>a c. 10 * a + digit_val c) (10 * n + digit_val c) cs"
        by simp
      with True False c show ?thesis by simp
    next
      case b: False
      then have "10 * n + digit_val c \<le> 18446744073709551615" by simp
      from Cons.IH[OF n1 this cs] False b c show ?thesis by simp
    qed
  qed
qed

lemma Atoi_digit_string:
  assumes "ds \<noteq> []" "list_all is_digit ds"
  shows "Atoi ds = (if 2 ^ 63 \<le> decimal ds then Inl ErrRange else Inr (decimal ds))"
proof -
  from assms obtain c cs where ds: "ds = c # cs" and c: "is_digit c"
    by (cases ds) auto
  from c have "c \<noteq> CHR ''-''" "c \<noteq> CHR ''+''"
    by (auto simp: is_digit_def)
  then have a: "Atoi ds = Atoi_digits False ds"
    by (simp add: Atoi_def ds)
  have "ParseUint ds =
     (if 18446744073709551615 < decimal ds then Inl ErrRange else Inr (decimal ds))"
    using assms ParseUint_loop_digits[of 0 ds] by (simp add: ParseUint_def decimal_def)
  with a show ?thesis
    by (simp add: Atoi_digits_def)
qed

lemma parseCommitLog_at:
  assumes ok: "fields_ok ws h hs rt n"
    and post: "takeWhile is_digit post = []"
    and left: "\<forall>k<length pre. \<not> matches_at (drop k (pre @ commit_text ws h hs rt n @ post))"
  shows "parseCommitLog pod (pre @ commit_text ws h hs rt n @ post) =
     (if 2 ^ 63 \<le> decimal h then Inl (ParsingHeight ErrRange)
      else if 2 ^ 63 \<le> decimal n then Inl (ParsingNumTxs ErrRange)
      else Inr \<lparr>Height = decimal h, Hash = hs, LogData.Root = rt, NumTxs = decimal n,
                LogData.PodName = pod\<rparr>)"
proof -
  have m: "match_here (commit_text ws h hs rt n @ post) = Some (h, hs, rt, n)"
    using match_here_complete[OF ok, of post] post by simp
  have "\<forall>k<length pre. match_here (drop k (pre @ commit_text ws h hs rt n @ post)) = None"
    using left by (simp only: matches_at_iff not_not)
  from FindStringSubmatch_leftmost[OF this m]
  have f: "FindStringSubmatch (pre @ commit_text ws h hs rt n @ post) = Some (h, hs, rt, n)" .
  from ok have "h \<noteq> []" "list_all is_digit h" "n \<noteq> []" "list_all is_digit n"
    by (simp_all add: fields_ok_def)
  then show ?thesis
    by (simp add: parseCommitLog_def f Atoi_digit_string)
qed

lemma parseCommitLog_NoMatch:
  "parseCommitLog pod line = Inl NoMatch \<longleftrightarrow> \<not> commit_line_grammar line"
  by (auto simp: parseCommitLog_def commit_line_grammar_iff split: option.splits sum.splits)

lemma no_earlier_match_code:
  "(\<forall>k<n. \<not> matches_at (drop k s)) = list_all (\<lambda>k. match_here (drop k s) = None) [0..<n]"
  unfolding list_all_iff matches_at_iff not_not set_upt Ball_def atLeastLessThan_iff
  by blast

lemma FindStringSubmatch_Some_leftmost:
  assumes "FindStringSubmatch line = Some m"
  shows "\<exists>pre s. line = pre @ s \<and> match_here s = Some m
           \<and> (\<forall>k<length pre. match_here (drop k line) = None)"
  using assms
proof (induction line)
  case Nil
  then have "match_here [] = Some m" by simp
  then show ?case
    by (intro exI[of _ "[]"]) simp
next
  case (Cons c cs)
  show ?case
  proof (cases "match_here (c # cs)")
    case None
    with Cons.prems have "FindStringSubmatch cs = Some m" by simp
    from Cons.IH[OF this] obtain pre s where cs: "cs = pre @ s" and m: "match_here s = Some m"
      and l: "\<forall>k<length pre. match_here (drop k cs) = None"
      by (elim exE conjE)
    have "\<forall>k<length (c # pre). match_here (drop k (c # cs)) = None"
    proof (intro allI impI)
      fix k assume k: "k < length (c # pre)"
      show "match_here (drop k (c # cs)) = None"
      proof (cases k)
        case 0
        with None show ?thesis by simp
      next
        case (Suc k')
        with k have "k' < length pre" by simp
        with l have "match_here (drop k' cs) = None" by (elim allE impE)
        with Suc show ?thesis by simp
      qed
    qed
    moreover have "c # cs = (c # pre) @ s" using cs by simp
    ultimately show ?thesis
      using m by (intro exI[of _ "c # pre"] exI[of _ s] conjI)
  next
    case (Some a)
    with Cons.prems have "match_here (c # cs) = Some m" by simp
    then show ?thesis
      by (intro exI[of _ "[]"] exI[of _ "c # cs"]) simp
  qed
qed

lemma grammar_leftmost_occurrence:
  assumes "commit_line_grammar line"
  shows "\<exists>pre ws h hs rt n post. line = pre @ commit_text ws h hs rt n @ post
           \<and> fields_ok ws h hs rt n \<and> takeWhile is_digit post = []
           \<and> (\<forall>k<length pre. \<not> matches_at (drop k line))"
proof -
  from assms have "FindStringSubmatch line \<noteq> None"
    by (rule commit_line_grammar_iff[THEN iffD1])
  then obtain h hs rt n where "FindStringSubmatch line = Some (h, hs, rt, n)"
    by (cases "FindStringSubmatch line") auto
  from FindStringSubmatch_Some_leftmost[OF this] obtain pre s where
    line: "line = pre @ s" and m: "match_here s = Some (h, hs, rt, n)"
    and l: "\<forall>k<length pre. match_here (drop k line) = None" by blast
  from match_here_sound[OF m] obtain ws post where
    s: "s = commit_text ws h hs rt n @ post" and ok: "fields_ok ws h hs rt n"
    and p: "takeWhile is_digit post = []" by blast
  from l have "\<forall>k<length pre. \<not> matches_at (drop k line)"
    by (simp only: matches_at_iff not_not)
  with line s ok p show ?thesis by blast
qed

lemma spec_grammar_intro:
  "fields_ok '' '' h hs rt n \<Longrightarrow>
   spec_commit_line_grammar (pre @ commit_text '' '' h hs rt n @ post)"
  unfolding spec_commit_line_grammar_def spec_matches_at_def by blast

lemma spec_grammar_sub:
  assumes "spec_commit_line_grammar line"
  shows "commit_line_grammar line"
proof -
  from assms obtain pre s h hs rt n post where
    "line = pre @ s" "s = commit_text '' '' h hs rt n @ post" "fields_ok '' '' h hs rt n"
    unfolding spec_commit_line_grammar_def spec_matches_at_def by blast
  then have "line = pre @ s \<and> matches_at s"
    unfolding matches_at_def by blast
  then show ?thesis
    unfolding commit_line_grammar_def by blast
qed

lemma spec_grammar_single_space:
  assumes "spec_commit_line_grammar line"
  shows "list_ex (\<lambda>k. case literal ''finalizing commit of block'' (drop k line) of
                       None \<Rightarrow> False
                     | Some s1 \<Rightarrow> takeWhile is_space s1 = '' '')
           [0..<Suc (length line)]"
proof -
  from assms obtain pre h hs rt n post where
    line: "line = pre @ commit_text '' '' h hs rt n @ post"
    unfolding spec_commit_line_grammar_def spec_matches_at_def by blast
  have "literal ''finalizing commit of block'' (drop (length pre) line) =
      Some ('' '' @ ''module=consensus height='' @ h
       @ '' hash='' @ hs @ '' root='' @ rt @ '' num_txs='' @ n @ post)"
    using literal_append[of "''finalizing commit of block''"]
    by (simp add: line commit_text_def)
  moreover have "takeWhile is_space ('' '' @ ''module=consensus height='' @ h
       @ '' hash='' @ hs @ '' root='' @ rt @ '' num_txs='' @ n @ post) = '' ''"
    by (simp add: is_space_def)
  moreover have "length pre \<in> set [0..<Suc (length line)]"
    by (simp add: line)
  ultimately show ?thesis
    unfolding list_ex_iff by (intro bexI[of _ "length pre"]) simp_all
qed

text \<open>
  C6 as stated fails in two ways. A line of the grammar whose height is \<open>2 ^ 63\<close>
  yields no commit event but the range error of \<^verbatim>\<open>strconv.Atoi\<close>. And a line
  with two spaces after the marker, which is outside the grammar of single spaces,
  is not answered with \<open>NoMatch\<close>: the pattern takes any run of white space there
  and the event is returned.
\<close>

theorem parseCommitLog_range_counterexample:
  "spec_commit_line_grammar
     ''finalizing commit of block module=consensus height=9223372036854775808 hash=deadbeef root=cafebabe num_txs=3''
   \<and> parseCommitLog ''nodeA''
     ''finalizing commit of block module=consensus height=9223372036854775808 hash=deadbeef root=cafebabe num_txs=3''
     = Inl (ParsingHeight ErrRange)
   \<and> \<not> spec_commit_line_grammar
     ''finalizing commit of block  module=consensus height=42 hash=deadbeef root=cafebabe num_txs=3''
   \<and> parseCommitLog ''nodeA''
     ''finalizing commit of block  module=consensus height=42 hash=deadbeef root=cafebabe num_txs=3''
     = Inr \<lparr>Height = 42, Hash = ''deadbeef'', LogData.Root = ''cafebabe'', NumTxs = 3,
            LogData.PodName = ''nodeA''\<rparr>"
proof (intro conjI)
  have f: "fields_ok '' '' ''9223372036854775808'' ''deadbeef'' ''cafebabe'' ''3''"
    by code_simp
  have t: "[] @ commit_text '' '' ''9223372036854775808'' ''deadbeef'' ''cafebabe'' ''3'' @ [] =
     ''finalizing commit of block module=consensus height=9223372036854775808 hash=deadbeef root=cafebabe num_txs=3''"
    by (simp add: commit_text_def)
  from spec_grammar_intro[OF f, of "[]" "[]"]
  show "spec_commit_line_grammar
     ''finalizing commit of block module=consensus height=9223372036854775808 hash=deadbeef root=cafebabe num_txs=3''"
    unfolding t .
  show "parseCommitLog ''nodeA''
     ''finalizing commit of block module=consensus height=9223372036854775808 hash=deadbeef root=cafebabe num_txs=3''
     = Inl (ParsingHeight ErrRange)"
    by code_simp
  have "\<not> list_ex (\<lambda>k. case literal ''finalizing commit of block''
         (drop k ''finalizing commit of block  module=consensus height=42 hash=deadbeef root=cafebabe num_txs=3'') of
                       None \<Rightarrow> False
                     | Some s1 \<Rightarrow> takeWhile is_space s1 = '' '')
           [0..<Suc (length ''finalizing commit of block  module=consensus height=42 hash=deadbeef root=cafebabe num_txs=3'')]"
    by code_simp
  then show "\<not> spec_commit_line_grammar
     ''finalizing commit of block  module=consensus height=42 hash=deadbeef root=cafebabe num_txs=3''"
    using spec_grammar_single_space by blast
  show "parseCommitLog ''nodeA''
     ''finalizing commit of block  module=consensus height=42 hash=deadbeef root=cafebabe num_txs=3''
     = Inr \<lparr>Height = 42, Hash = ''deadbeef'', LogData.Root = ''cafebabe'', NumTxs = 3,
            LogData.PodName = ''nodeA''\<rparr>"
    by code_simp
qed

text \<open>
  C6, as amended. The grammar is that of the pattern: the marker, one or more
  white-space characters, then the four labelled fields separated by single spaces,
  anywhere in the line; every line of the specification's grammar is in it. For
  the leftmost occurrence of the commit text in a line, with the number of
  transactions read to its last digit, the extractor returns the range failure of
  the height when the height is above \<open>2 ^ 63 - 1\<close>, else the range failure of the
  number of transactions when that is above \<open>2 ^ 63 - 1\<close>, and else the commit
  event with exactly the encoded height, hash, root and number of transactions.
  Every line of the grammar has such an occurrence, and the extractor answers
  \<open>NoMatch\<close> exactly for the lines outside the grammar.
\<close>

theorem parseCommitLog_grammar:
  "(fields_ok ws h hs rt n \<and> takeWhile is_digit post = []
      \<and> (\<forall>k<length pre. \<not> matches_at (drop k (pre @ commit_text ws h hs rt n @ post)))
    \<longrightarrow> parseCommitLog pod (pre @ commit_text ws h hs rt n @ post) =
          (if 2 ^ 63 \<le> decimal h then Inl (ParsingHeight ErrRange)
           else if 2 ^ 63 \<le> decimal n then Inl (ParsingNumTxs ErrRange)
           else Inr \<lparr>Height = decimal h, Hash = hs, LogData.Root = rt, NumTxs = decimal n,
                     LogData.PodName = pod\<rparr>))
   \<and> (commit_line_grammar line \<longrightarrow>
        (\<exists>pre ws h hs rt n post. line = pre @ commit_text ws h hs rt n @ post
           \<and> fields_ok ws h hs rt n \<and> takeWhile is_digit post = []
           \<and> (\<forall>k<length pre. \<not> matches_at (drop k line))))
   \<and> ((parseCommitLog pod line = Inl NoMatch) = (\<not> commit_line_grammar line))
   \<and> (spec_commit_line_grammar line \<longrightarrow> commit_line_grammar line)"
proof (intro conjI impI)
  assume a: "fields_ok ws h hs rt n \<and> takeWhile is_digit post = []
      \<and> (\<forall>k<length pre. \<not> matches_at (drop k (pre @ commit_text ws h hs rt n @ post)))"
  then show "parseCommitLog pod (pre @ commit_text ws h hs rt n @ post) =
     (if 2 ^ 63 \<le> decimal h then Inl (ParsingHeight ErrRange)
      else if 2 ^ 63 \<le> decimal n then Inl (ParsingNumTxs ErrRange)
      else Inr \<lparr>Height = decimal h, Hash = hs, LogData.Root = rt, NumTxs = decimal n,
                LogData.PodName = pod\<rparr>)"
    by (intro parseCommitLog_at) simp_all
next
  assume "commit_line_grammar line"
  then show "\<exists>pre ws h hs rt n post. line = pre @ commit_text ws h hs rt n @ post
           \<and> fields_ok ws h hs rt n \<and> takeWhile is_digit post = []
           \<and> (\<forall>k<length pre. \<not> matches_at (drop k line))"
    by (rule grammar_leftmost_occurrence)
next
  show "(parseCommitLog pod line = Inl NoMatch) = (\<not> commit_line_grammar line)"
    by (rule parseCommitLog_NoMatch)
next
  assume "spec_commit_line_grammar line"
  then show "commit_line_grammar line"
    by (rule spec_grammar_sub)
qed

theorem parseCommitLog_grammar_witness:
  "parseCommitLog ''nodeA''
     ''I[10:00] finalizing commit of block module=consensus height=42 hash=deadbeef root=cafebabe num_txs=3''
     = Inr \<lparr>Height = 42, Hash = ''deadbeef'', LogData.Root = ''cafebabe'', NumTxs = 3,
            LogData.PodName = ''nodeA''\<rparr>
   \<and> parseCommitLog ''nodeA''
     ''finalizing commit of block module=consensus height=42 hash=deadbeef root=cafebabe num_txs=9223372036854775808''
     = Inl (ParsingNumTxs ErrRange)
   \<and> \<not> commit_line_grammar ''height=42 root=cafebabe''
   \<and> parseCommitLog ''nodeA'' ''height=42 root=cafebabe'' = Inl NoMatch"
proof -
  have nm: "parseCommitLog ''nodeA'' ''height=42 root=cafebabe'' = Inl NoMatch"
    by code_simp
  have f: "fields_ok '' '' ''42'' ''deadbeef'' ''cafebabe'' ''3''"
    "fields_ok '' '' ''42'' ''deadbeef'' ''cafebabe'' ''9223372036854775808''"
    by code_simp+
  have d: "decimal ''42'' = 42" "decimal ''3'' = 3"
    "decimal ''9223372036854775808'' = 9223372036854775808"
    by code_simp+
  have l: "\<forall>k<length ''I[10:00] ''. \<not> matches_at (drop k (''I[10:00] '' @ commit_text '' '' ''42'' ''deadbeef'' ''cafebabe'' ''3'' @ []))"
    unfolding no_earlier_match_code by code_simp
  have t: "''I[10:00] '' @ commit_text '' '' ''42'' ''deadbeef'' ''cafebabe'' ''3'' @ [] =
     ''I[10:00] finalizing commit of block module=consensus height=42 hash=deadbeef root=cafebabe num_txs=3''"
    by (simp add: commit_text_def)
  have t2: "[] @ commit_text '' '' ''42'' ''deadbeef'' ''cafebabe'' ''9223372036854775808'' @ [] =
     ''finalizing commit of block module=consensus height=42 hash=deadbeef root=cafebabe num_txs=9223372036854775808''"
    by (simp add: commit_text_def)
  have one: "parseCommitLog ''nodeA''
     ''I[10:00] finalizing commit of block module=consensus height=42 hash=deadbeef root=cafebabe num_txs=3''
     = Inr \<lparr>Height = 42, Hash = ''deadbeef'', LogData.Root = ''cafebabe'', NumTxs = 3,
            LogData.PodName = ''nodeA''\<rparr>
     \<and> \<not> commit_line_grammar ''height=42 root=cafebabe''"
    using parseCommitLog_grammar[where ws = "'' ''" and h = "''42''" and hs = "''deadbeef''"
      and rt = "''cafebabe''" and n = "''3''" and post = "[]" and pre = "''I[10:00] ''"
      and pod = "''nodeA''" and line = "''height=42 root=cafebabe''"]
      nm f(1) d(1,2) l
    unfolding t by simp
  have two: "parseCommitLog ''nodeA''
     ''finalizing commit of block module=consensus height=42 hash=deadbeef root=cafebabe num_txs=9223372036854775808''
     = Inl (ParsingNumTxs ErrRange)"
    using parseCommitLog_grammar[where ws = "'' ''" and h = "''42''" and hs = "''deadbeef''"
      and rt = "''cafebabe''" and n = "''9223372036854775808''" and post = "[]" and pre = "[]"
      and pod = "''nodeA''" and line = "''height=42 root=cafebabe''"]
      f(2) d(1,3)
    unfolding t2 by simp
  from one two nm show ?thesis by simp
qed

section \<open>The worker loop of the current version\<close>

subsection \<open>One step\<close>

lemma range_loop_append:
  "a w \<Longrightarrow> range_loop a body w (xs @ ys) =
     (if a (range_loop a body w xs) then range_loop a body (range_loop a body w xs) ys
      else range_loop a body w xs)"
  by (induction xs arbitrary: w) (auto simp: Let_def)

lemma range_loop_snoc:
  "a w \<Longrightarrow> range_loop a body w (xs @ [x]) =
     (if a (range_loop a body w xs) then body (range_loop a body w xs) x
      else range_loop a body w xs)"
  by (simp add: range_loop_append Let_def)

lemma go_rem_zero_iff:
  assumes "0 < b"
  shows "(go_rem a b = 0) = (a mod b = 0)"
proof (cases "0 \<le> a")
  case True
  then show ?thesis
    using assms by (cases "a = 0") (simp_all add: go_rem_def minus_mult_div_eq_mod)
next
  case False
  then have neg: "a < 0" by simp
  have "go_rem a b = - (\<bar>a\<bar> mod b)"
    using neg assms by (simp add: go_rem_def algebra_simps minus_mult_div_eq_mod[symmetric])
  moreover have "(\<bar>a\<bar> mod b = 0) = (a mod b = 0)"
    by (simp add: mod_eq_0_iff_dvd)
  ultimately show ?thesis by simp
qed

lemma consistentRecords_iff:
  "consistentRecords r prev = list_all (\<lambda>x. RootHashRecord.Root x = RootHashRecord.Root r) prev"
proof -
  have "consistentRecords_loop r prev =
      list_all (\<lambda>x. RootHashRecord.Root x = RootHashRecord.Root r) prev"
    by (induction prev) auto
  then show ?thesis
    by (cases prev) (simp_all add: consistentRecords_def)
qed

lemma handleCommit_new:
  assumes "rootCache w (Height c) = None"
  shows "handleCommit w c =
     w\<lparr>rootCache := (rootCache w)(Height c \<mapsto> [report_of c]),
       effects := effects w @ notices 1000 c\<rparr>"
  using assms
  by (simp add: handleCommit_def Let_def emit_def notices_def report_of_def go_rem_zero_iff)

lemma handleCommit_agree:
  assumes "rootCache w (Height c) = Some prev"
    and "list_all (\<lambda>x. RootHashRecord.Root x = LogData.Root c) prev"
  shows "handleCommit w c =
     w\<lparr>rootCache := (rootCache w)(Height c \<mapsto> prev @ [report_of c]),
       effects := effects w @ notices 1000 c\<rparr>"
  using assms
  by (simp add: handleCommit_def Let_def emit_def notices_def report_of_def go_rem_zero_iff
      consistentRecords_iff)

lemma handleCommit_diverge:
  assumes "rootCache w (Height c) = Some prev"
    and "\<not> list_all (\<lambda>x. RootHashRecord.Root x = LogData.Root c) prev"
  shows "handleCommit w c =
     w\<lparr>effects := effects w @ notices 1000 c
          @ [PostToDiscord (''@erwanor : '' @ mismatch_text (Height c) prev),
             LogFatal (mismatch_text (Height c) prev)],
       status := Exit 1\<rparr>"
  using assms
  by (simp add: handleCommit_def Let_def emit_def notices_def report_of_def go_rem_zero_iff
      consistentRecords_iff)

subsection \<open>Runs\<close>

lemma reports_at_snoc:
  "reports_at h (cs @ [c]) = reports_at h cs @ (if Height c = h then [report_of c] else [])"
  by (simp add: reports_at_def)

lemma cache_of_Nil: "cache_of [] = Map.empty"
  by (simp add: cache_of_def reports_at_def)

lemma cache_of_snoc:
  "cache_of (cs @ [c]) = (cache_of cs)(Height c \<mapsto> reports_at (Height c) cs @ [report_of c])"
  by (rule ext) (simp add: cache_of_def reports_at_snoc)

lemma agrees_with_reports:
  "agrees_with c cs =
     list_all (\<lambda>x. RootHashRecord.Root x = LogData.Root c) (reports_at (Height c) cs)"
  by (induction cs) (auto simp: agrees_with_def reports_at_def report_of_def)

lemma conflict_free_Nil: "conflict_free []"
  by (simp add: conflict_free_def)

lemma conflict_free_snoc:
  "conflict_free (cs @ [c]) = (conflict_free cs \<and> agrees_with c cs)"
  by (auto simp: conflict_free_def list_all_iff nth_append)

lemma handleCommit_accepted:
  assumes "agrees_with c cs"
  shows "handleCommit (accepted cs) c = accepted (cs @ [c])"
proof (cases "reports_at (Height c) cs = []")
  case True
  then have "rootCache (accepted cs) (Height c) = None"
    by (simp add: accepted_def cache_of_def)
  from handleCommit_new[OF this] True show ?thesis
    by (simp add: accepted_def cache_of_snoc)
next
  case False
  then have s: "rootCache (accepted cs) (Height c) = Some (reports_at (Height c) cs)"
    by (simp add: accepted_def cache_of_def)
  from assms have "list_all (\<lambda>x. RootHashRecord.Root x = LogData.Root c) (reports_at (Height c) cs)"
    by (simp add: agrees_with_reports)
  from handleCommit_agree[OF s this] show ?thesis
    by (simp add: accepted_def cache_of_snoc)
qed

lemma handleCommit_rejected:
  assumes "\<not> agrees_with c cs"
  shows "handleCommit (accepted cs) c =
     \<lparr>rootCache = cache_of cs,
      effects = concat (map (notices 1000) cs) @ notices 1000 c
        @ [PostToDiscord (''@erwanor : '' @ mismatch_text (Height c) (reports_at (Height c) cs)),
           LogFatal (mismatch_text (Height c) (reports_at (Height c) cs))],
      status = Exit 1\<rparr>"
proof -
  from assms have n: "\<not> list_all (\<lambda>x. RootHashRecord.Root x = LogData.Root c) (reports_at (Height c) cs)"
    by (simp add: agrees_with_reports)
  then have "reports_at (Height c) cs \<noteq> []" by auto
  then have s: "rootCache (accepted cs) (Height c) = Some (reports_at (Height c) cs)"
    by (simp add: accepted_def cache_of_def)
  from handleCommit_diverge[OF s n] show ?thesis
    by (simp add: accepted_def)
qed

lemma alive_tm_init: "alive tm_init"
  by (simp add: alive_def tm_init_def)

lemma reconcile_append:
  "reconcile (xs @ ys) =
     (if alive (reconcile xs) then range_loop alive handleCommit (reconcile xs) ys
      else reconcile xs)"
  unfolding reconcile_def
  by (rule range_loop_append[where a = alive and w = tm_init, OF alive_tm_init])

lemma reconcile_snoc:
  "status (reconcile cs) = Running \<Longrightarrow> reconcile (cs @ [c]) = handleCommit (reconcile cs) c"
  by (simp add: reconcile_append alive_def Let_def)

lemma reconcile_halted:
  "status (reconcile cs) \<noteq> Running \<Longrightarrow> reconcile (cs @ rest) = reconcile cs"
  by (simp add: reconcile_append alive_def)

lemma reconcile_conflict_free:
  "conflict_free cs \<Longrightarrow> reconcile cs = accepted cs"
proof (induction cs rule: rev_induct)
  case Nil
  then show ?case
    by (simp add: reconcile_def accepted_def tm_init_def cache_of_Nil)
next
  case (snoc c cs)
  then have cf: "conflict_free cs" and ag: "agrees_with c cs"
    by (simp_all add: conflict_free_snoc)
  with snoc.IH have r: "reconcile cs = accepted cs" by simp
  then have "status (reconcile cs) = Running" by (simp add: accepted_def)
  then have "reconcile (cs @ [c]) = handleCommit (reconcile cs) c"
    by (rule reconcile_snoc)
  with r ag show ?case by (simp add: handleCommit_accepted)
qed

lemma reconcile_first_conflict:
  assumes "conflict_free cs" and "\<not> agrees_with c cs"
  shows "reconcile (cs @ c # rest) =
     \<lparr>rootCache = cache_of cs,
      effects = concat (map (notices 1000) cs) @ notices 1000 c
        @ [PostToDiscord (''@erwanor : '' @ mismatch_text (Height c) (reports_at (Height c) cs)),
           LogFatal (mismatch_text (Height c) (reports_at (Height c) cs))],
      status = Exit 1\<rparr>"
proof -
  have r: "reconcile cs = accepted cs"
    using assms(1) by (rule reconcile_conflict_free)
  then have "status (reconcile cs) = Running" by (simp add: accepted_def)
  then have "reconcile (cs @ [c]) = handleCommit (reconcile cs) c"
    by (rule reconcile_snoc)
  then have one: "reconcile (cs @ [c]) =
     \<lparr>rootCache = cache_of cs,
      effects = concat (map (notices 1000) cs) @ notices 1000 c
        @ [PostToDiscord (''@erwanor : '' @ mismatch_text (Height c) (reports_at (Height c) cs)),
           LogFatal (mismatch_text (Height c) (reports_at (Height c) cs))],
      status = Exit 1\<rparr>"
    using r handleCommit_rejected[OF assms(2)] by simp
  then have "status (reconcile (cs @ [c])) \<noteq> Running" by simp
  then have "reconcile ((cs @ [c]) @ rest) = reconcile (cs @ [c])"
    by (rule reconcile_halted)
  with one show ?thesis by simp
qed

lemma first_conflict:
  "\<not> conflict_free cs \<Longrightarrow>
   \<exists>pre c rest. cs = pre @ c # rest \<and> conflict_free pre \<and> \<not> agrees_with c pre"
proof (induction cs rule: rev_induct)
  case Nil
  then show ?case by (simp add: conflict_free_Nil)
next
  case (snoc x xs)
  show ?case
  proof (cases "conflict_free xs")
    case True
    with snoc.prems have "\<not> agrees_with x xs" by (simp add: conflict_free_snoc)
    with True have "xs @ [x] = xs @ x # [] \<and> conflict_free xs \<and> \<not> agrees_with x xs" by simp
    then show ?thesis by blast
  next
    case False
    with snoc.IH obtain pre c rest where
      "xs = pre @ c # rest" "conflict_free pre" "\<not> agrees_with c pre" by blast
    then have "xs @ [x] = pre @ c # (rest @ [x]) \<and> conflict_free pre \<and> \<not> agrees_with c pre"
      by simp
    then show ?thesis by blast
  qed
qed

lemma reconcile_Running_iff: "status (reconcile cs) = Running \<longleftrightarrow> conflict_free cs"
proof
  assume r: "status (reconcile cs) = Running"
  show "conflict_free cs"
  proof (rule ccontr)
    assume "\<not> conflict_free cs"
    from first_conflict[OF this] obtain pre c rest where
      "cs = pre @ c # rest" "conflict_free pre" "\<not> agrees_with c pre" by blast
    with reconcile_first_conflict[of pre c rest] have "status (reconcile cs) = Exit 1" by simp
    with r show False by simp
  qed
next
  assume "conflict_free cs"
  then show "status (reconcile cs) = Running"
    by (simp add: reconcile_conflict_free accepted_def)
qed

lemma tm_step_commit_of:
  "tm_step w e = (case commit_of e of None \<Rightarrow> w | Some c \<Rightarrow> handleCommit w c)"
  by (simp add: tm_step_def commit_of_def split: option.splits sum.splits)

lemma range_loop_commits:
  "alive w \<Longrightarrow>
   range_loop alive tm_step w es = range_loop alive handleCommit w (List.map_filter commit_of es)"
proof (induction es arbitrary: w)
  case Nil
  then show ?case by (simp add: map_filter_simps)
next
  case (Cons e es)
  show ?case
  proof (cases "commit_of e")
    case None
    with Cons show ?thesis
      by (simp add: tm_step_commit_of map_filter_simps)
  next
    case (Some c)
    with Cons show ?thesis
      by (simp add: tm_step_commit_of map_filter_simps Let_def)
  qed
qed

lemma tm_worker_reconcile: "tm_worker entries = reconcile (commits_of entries)"
  unfolding tm_worker_def reconcile_def commits_of_def
  by (rule range_loop_commits[OF alive_tm_init])

lemma conflict_free_pairwise:
  "conflict_free cs \<Longrightarrow> c1 \<in> set cs \<Longrightarrow> c2 \<in> set cs \<Longrightarrow> Height c1 = Height c2
   \<Longrightarrow> LogData.Root c1 = LogData.Root c2"
proof (induction cs rule: rev_induct)
  case Nil
  then show ?case by simp
next
  case (snoc x xs)
  from snoc.prems(1) have cf: "conflict_free xs" and ag: "agrees_with x xs"
    by (simp_all add: conflict_free_snoc)
  from ag have a: "\<And>d. d \<in> set xs \<Longrightarrow> Height d = Height x \<Longrightarrow> LogData.Root d = LogData.Root x"
    by (auto simp: agrees_with_def list_all_iff split: if_splits)
  from snoc.prems(2,3) consider "c1 \<in> set xs" "c2 \<in> set xs" | "c1 = x" "c2 \<in> set xs"
    | "c1 \<in> set xs" "c2 = x" | "c1 = x" "c2 = x" by auto
  then show ?case
  proof cases
    case 1
    with snoc.IH cf snoc.prems(4) show ?thesis by blast
  next
    case 2
    with a[of c2] snoc.prems(4) show ?thesis by simp
  next
    case 3
    with a[of c1] snoc.prems(4) show ?thesis by simp
  next
    case 4
    then show ?thesis by simp
  qed
qed

lemma same_root_conflict_free:
  "list_all (\<lambda>c. Height c = h \<and> LogData.Root c = r) cs \<Longrightarrow> conflict_free cs"
  by (induction cs rule: rev_induct)
     (auto simp: conflict_free_Nil conflict_free_snoc agrees_with_def list_all_iff)

lemma same_height_cache:
  assumes "list_all (\<lambda>c. Height c = h \<and> LogData.Root c = r) cs"
  shows "cache_of cs = (if cs = [] then Map.empty else [h \<mapsto> map report_of cs])"
proof (rule ext)
  fix k
  from assms have f1: "filter (\<lambda>c. Height c = h) cs = cs"
    by (induction cs) auto
  from assms have f2: "k \<noteq> h \<Longrightarrow> filter (\<lambda>c. Height c = k) cs = []"
    by (induction cs) auto
  show "cache_of cs k = (if cs = [] then Map.empty else [h \<mapsto> map report_of cs]) k"
    by (cases "k = h") (simp_all add: cache_of_def reports_at_def f1 f2)
qed

lemma progress_notice_not_alert: "\<not> is_alert (PostToDiscord (progress_notice c))"
  by (simp add: progress_notice_def)

lemma notices_quiet: "list_all (\<lambda>e. \<not> is_alert e \<and> \<not> is_fatal e) (notices m c)"
  by (simp add: notices_def progress_notice_def)

lemma accepted_quiet:
  "list_all (\<lambda>e. \<not> is_alert e \<and> \<not> is_fatal e) (concat (map (notices m) cs))"
  using notices_quiet by (induction cs) (auto simp: list_all_iff)

subsection \<open>Agreement within a height\<close>

text \<open>
  C3. In every state the worker reaches from the empty cache without halting, all
  roots stored for one height are equal.
\<close>

theorem cache_roots_agree:
  assumes "status (tm_worker entries) = Running"
    and "rootCache (tm_worker entries) h = Some reports"
    and "r1 \<in> set reports" and "r2 \<in> set reports"
  shows "RootHashRecord.Root r1 = RootHashRecord.Root r2"
proof -
  let ?cs = "commits_of entries"
  from assms(1) have cf: "conflict_free ?cs"
    by (simp add: tm_worker_reconcile reconcile_Running_iff)
  then have "tm_worker entries = accepted ?cs"
    by (simp add: tm_worker_reconcile reconcile_conflict_free)
  with assms(2) have "reports = reports_at h ?cs"
    by (simp add: accepted_def cache_of_def split: if_splits)
  with assms(3,4) obtain c1 c2 where
    c: "c1 \<in> set ?cs" "c2 \<in> set ?cs" "Height c1 = h" "Height c2 = h"
      "r1 = report_of c1" "r2 = report_of c2"
    by (auto simp: reports_at_def)
  from conflict_free_pairwise[OF cf c(1,2)] c(3,4) have "LogData.Root c1 = LogData.Root c2"
    by simp
  with c(5,6) show ?thesis by (simp add: report_of_def)
qed

theorem cache_roots_agree_witness:
  "status (tm_worker [commit_entry ''nodeA'' 200 ''cc'', commit_entry ''nodeB'' 200 ''cc'']) = Running
   \<and> rootCache (tm_worker [commit_entry ''nodeA'' 200 ''cc'', commit_entry ''nodeB'' 200 ''cc'']) 200
       = Some [\<lparr>RootHashRecord.PodName = ''nodeA'', RootHashRecord.Root = ''cc''\<rparr>,
               \<lparr>RootHashRecord.PodName = ''nodeB'', RootHashRecord.Root = ''cc''\<rparr>]
   \<and> RootHashRecord.Root \<lparr>RootHashRecord.PodName = ''nodeA'', RootHashRecord.Root = ''cc''\<rparr>
       = RootHashRecord.Root \<lparr>RootHashRecord.PodName = ''nodeB'', RootHashRecord.Root = ''cc''\<rparr>"
proof -
  have s: "status (tm_worker [commit_entry ''nodeA'' 200 ''cc'', commit_entry ''nodeB'' 200 ''cc'']) = Running"
    by code_simp
  have c: "rootCache (tm_worker [commit_entry ''nodeA'' 200 ''cc'', commit_entry ''nodeB'' 200 ''cc'']) 200
       = Some [\<lparr>RootHashRecord.PodName = ''nodeA'', RootHashRecord.Root = ''cc''\<rparr>,
               \<lparr>RootHashRecord.PodName = ''nodeB'', RootHashRecord.Root = ''cc''\<rparr>]"
    by code_simp
  from cache_roots_agree[OF s c, of "\<lparr>RootHashRecord.PodName = ''nodeA'', RootHashRecord.Root = ''cc''\<rparr>"
      "\<lparr>RootHashRecord.PodName = ''nodeB'', RootHashRecord.Root = ''cc''\<rparr>"] s c
  show ?thesis by simp
qed

text \<open>
  C4. When all commit events of the input are at one height and carry one root, in
  whatever order and however often repeated, the worker accepts every one of them:
  it is still running, the cache holds one report per event under that height, in
  arrival order, and no alert or fatal message was written.
\<close>

theorem same_root_all_accepted:
  assumes "list_all (\<lambda>c. Height c = h \<and> LogData.Root c = r) (commits_of entries)"
  shows "tm_worker entries =
      \<lparr>rootCache = (if commits_of entries = [] then Map.empty
                     else [h \<mapsto> map report_of (commits_of entries)]),
       effects = concat (map (notices 1000) (commits_of entries)),
       status = Running\<rparr>
    \<and> list_all (\<lambda>e. \<not> is_alert e \<and> \<not> is_fatal e) (effects (tm_worker entries))"
proof -
  from assms have "conflict_free (commits_of entries)"
    by (rule same_root_conflict_free)
  then have "tm_worker entries = accepted (commits_of entries)"
    by (simp add: tm_worker_reconcile reconcile_conflict_free)
  then show ?thesis
    using same_height_cache[OF assms] by (simp add: accepted_def accepted_quiet)
qed

theorem same_root_all_accepted_witness:
  "rootCache (tm_worker [commit_entry ''nodeA'' 200 ''cc'', commit_entry ''nodeA'' 200 ''cc''])
     = [200 \<mapsto> [\<lparr>RootHashRecord.PodName = ''nodeA'', RootHashRecord.Root = ''cc''\<rparr>,
                 \<lparr>RootHashRecord.PodName = ''nodeA'', RootHashRecord.Root = ''cc''\<rparr>]]
   \<and> status (tm_worker [commit_entry ''nodeA'' 200 ''cc'', commit_entry ''nodeA'' 200 ''cc'']) = Running
   \<and> effects (tm_worker [commit_entry ''nodeA'' 200 ''cc'', commit_entry ''nodeA'' 200 ''cc''])
     = [LogPrint ''nodeA, at height 200, has apphash cc'',
        LogPrint ''nodeA, at height 200, has apphash cc'']"
proof -
  have cs: "commits_of [commit_entry ''nodeA'' 200 ''cc'', commit_entry ''nodeA'' 200 ''cc''] =
      [\<lparr>Height = 200, Hash = ''0A1B'', LogData.Root = ''cc'', NumTxs = 0, LogData.PodName = ''nodeA''\<rparr>,
       \<lparr>Height = 200, Hash = ''0A1B'', LogData.Root = ''cc'', NumTxs = 0, LogData.PodName = ''nodeA''\<rparr>]"
    by code_simp
  have n: "notices 1000 \<lparr>Height = 200, Hash = ''0A1B'', LogData.Root = ''cc'', NumTxs = 0, LogData.PodName = ''nodeA''\<rparr>
      = [LogPrint ''nodeA, at height 200, has apphash cc'']"
    by code_simp
  have "list_all (\<lambda>c. Height c = 200 \<and> LogData.Root c = ''cc'')
      (commits_of [commit_entry ''nodeA'' 200 ''cc'', commit_entry ''nodeA'' 200 ''cc''])"
    by (simp add: cs)
  from same_root_all_accepted[OF this] show ?thesis
    by (simp add: cs n report_of_def)
qed

text \<open>
  C9. Replaying the commit events of an accepted run from a fresh state gives the
  same final state, with the same cache, which is the cache the events determine,
  and again no divergence.
\<close>

theorem replay_accepted_sequence:
  assumes "status (tm_worker entries) = Running"
    and "commits_of replayed = commits_of entries"
  shows "tm_worker replayed = tm_worker entries
    \<and> rootCache (tm_worker replayed) = cache_of (commits_of entries)
    \<and> status (tm_worker replayed) = Running
    \<and> list_all (\<lambda>e. \<not> is_alert e \<and> \<not> is_fatal e) (effects (tm_worker replayed))"
proof -
  from assms(2) have same: "tm_worker replayed = tm_worker entries"
    by (simp add: tm_worker_reconcile)
  from assms(1) have "conflict_free (commits_of entries)"
    by (simp add: tm_worker_reconcile reconcile_Running_iff)
  then have "tm_worker entries = accepted (commits_of entries)"
    by (simp add: tm_worker_reconcile reconcile_conflict_free)
  with same show ?thesis
    by (simp add: accepted_def accepted_quiet)
qed

theorem replay_accepted_sequence_witness:
  "status (tm_worker [commit_entry ''nodeA'' 7 ''ab'', commit_entry ''nodeB'' 8 ''cd'',
      commit_entry ''nodeB'' 7 ''ab'']) = Running
   \<and> tm_worker [commit_entry ''nodeA'' 7 ''ab'', \<lparr>metadata = Map.empty, payload = ''noise''\<rparr>,
        commit_entry ''nodeB'' 8 ''cd'', commit_entry ''nodeB'' 7 ''ab'']
     = tm_worker [commit_entry ''nodeA'' 7 ''ab'', commit_entry ''nodeB'' 8 ''cd'',
        commit_entry ''nodeB'' 7 ''ab'']
   \<and> rootCache (tm_worker [commit_entry ''nodeA'' 7 ''ab'', commit_entry ''nodeB'' 8 ''cd'',
        commit_entry ''nodeB'' 7 ''ab'']) 7
     = Some [\<lparr>RootHashRecord.PodName = ''nodeA'', RootHashRecord.Root = ''ab''\<rparr>,
             \<lparr>RootHashRecord.PodName = ''nodeB'', RootHashRecord.Root = ''ab''\<rparr>]"
proof -
  have s: "status (tm_worker [commit_entry ''nodeA'' 7 ''ab'', commit_entry ''nodeB'' 8 ''cd'',
      commit_entry ''nodeB'' 7 ''ab'']) = Running"
    by code_simp
  have e: "commits_of [commit_entry ''nodeA'' 7 ''ab'', \<lparr>metadata = Map.empty, payload = ''noise''\<rparr>,
        commit_entry ''nodeB'' 8 ''cd'', commit_entry ''nodeB'' 7 ''ab'']
     = commits_of [commit_entry ''nodeA'' 7 ''ab'', commit_entry ''nodeB'' 8 ''cd'',
        commit_entry ''nodeB'' 7 ''ab'']"
    by code_simp
  have c: "rootCache (tm_worker [commit_entry ''nodeA'' 7 ''ab'', commit_entry ''nodeB'' 8 ''cd'',
        commit_entry ''nodeB'' 7 ''ab'']) 7
     = Some [\<lparr>RootHashRecord.PodName = ''nodeA'', RootHashRecord.Root = ''ab''\<rparr>,
             \<lparr>RootHashRecord.PodName = ''nodeB'', RootHashRecord.Root = ''ab''\<rparr>]"
    by code_simp
  from replay_accepted_sequence[OF s e] s c show ?thesis by simp
qed

subsection \<open>Status lines and progress notices\<close>

lemma handleCommit_effects:
  "\<exists>tail. effects (handleCommit w c) = effects w @ notices 1000 c @ tail
     \<and> list_all (\<lambda>e. \<not> is_progress e \<and> \<not> is_status_line e) tail"
proof (cases "rootCache w (Height c)")
  case None
  from handleCommit_new[OF this] have "effects (handleCommit w c) = effects w @ notices 1000 c @ []"
    by simp
  then show ?thesis by (intro exI[of _ "[]"]) simp
next
  case (Some prev)
  show ?thesis
  proof (cases "list_all (\<lambda>x. RootHashRecord.Root x = LogData.Root c) prev")
    case True
    from handleCommit_agree[OF Some True]
    have "effects (handleCommit w c) = effects w @ notices 1000 c @ []" by simp
    then show ?thesis by (intro exI[of _ "[]"]) simp
  next
    case False
    from handleCommit_diverge[OF Some False]
    have "effects (handleCommit w c) = effects w @ notices 1000 c
          @ [PostToDiscord (''@erwanor : '' @ mismatch_text (Height c) prev),
             LogFatal (mismatch_text (Height c) prev)]" by simp
    then show ?thesis
      by (intro exI[of _ "[PostToDiscord (''@erwanor : '' @ mismatch_text (Height c) prev),
             LogFatal (mismatch_text (Height c) prev)]"]) simp
  qed
qed

lemma handleCommit_restart_effects_eq:
  "effects (handleCommit_restart v c) = effects v @ notices 4320 c @
     (case rootCache v (Height c) of
        None \<Rightarrow> []
      | Some prev \<Rightarrow>
          if Height c < confirmedHeight v then
            (if length prev \<le> 1 then []
             else [PostToDiscord
                (restart_text (Height c) (confirmedHeight v) (prev ! 0) (prev ! 1))])
          else if length prev \<le> 0 then []
          else if RootHashRecord.Root (prev ! 0) \<noteq> LogData.Root c then
            [PostToDiscord (''@erwanor : '' @ mismatch_text_restart (Height c) (prev ! 0) (report_of c)),
             LogFatal (mismatch_text_restart (Height c) (prev ! 0) (report_of c))]
          else [])"
  by (simp add: handleCommit_restart_def Let_def emit_def notices_def go_rem_zero_iff report_of_def
      split: option.splits)

lemma handleCommit_restart_effects:
  "\<exists>tail. effects (handleCommit_restart v c) = effects v @ notices 4320 c @ tail
     \<and> list_all (\<lambda>e. \<not> is_progress e \<and> \<not> is_status_line e) tail"
proof (intro exI conjI)
  show "effects (handleCommit_restart v c) = effects v @ notices 4320 c @
     (case rootCache v (Height c) of
        None \<Rightarrow> []
      | Some prev \<Rightarrow>
          if Height c < confirmedHeight v then
            (if length prev \<le> 1 then []
             else [PostToDiscord
                (restart_text (Height c) (confirmedHeight v) (prev ! 0) (prev ! 1))])
          else if length prev \<le> 0 then []
          else if RootHashRecord.Root (prev ! 0) \<noteq> LogData.Root c then
            [PostToDiscord (''@erwanor : '' @ mismatch_text_restart (Height c) (prev ! 0) (report_of c)),
             LogFatal (mismatch_text_restart (Height c) (prev ! 0) (report_of c))]
          else [])"
    by (rule handleCommit_restart_effects_eq)
  show "list_all (\<lambda>e. \<not> is_progress e \<and> \<not> is_status_line e)
     (case rootCache v (Height c) of
        None \<Rightarrow> []
      | Some prev \<Rightarrow>
          if Height c < confirmedHeight v then
            (if length prev \<le> 1 then []
             else [PostToDiscord
                (restart_text (Height c) (confirmedHeight v) (prev ! 0) (prev ! 1))])
          else if length prev \<le> 0 then []
          else if RootHashRecord.Root (prev ! 0) \<noteq> LogData.Root c then
            [PostToDiscord (''@erwanor : '' @ mismatch_text_restart (Height c) (prev ! 0) (report_of c)),
             LogFatal (mismatch_text_restart (Height c) (prev ! 0) (report_of c))]
          else [])"
    by (simp add: restart_text_def split: option.splits)
qed

text \<open>
  C8. Handling a commit event first writes the status line of the event (source,
  height, root) to the log, then posts the progress notice exactly when the height
  is a multiple of the modulus, which is 1000 in the current worker and 4320 in
  \<^verbatim>\<open>src/main.go\<close>; whatever else the step writes is neither of the two. A run
  that accepted all its events has written exactly these messages, event by event.
\<close>

theorem status_line_and_progress_notice:
  "(\<exists>tail. effects (handleCommit w c) =
        effects w @ [LogPrint (status_line c)]
          @ (if Height c mod 1000 = 0 then [PostToDiscord (progress_notice c)] else []) @ tail
      \<and> list_all (\<lambda>e. \<not> is_progress e \<and> \<not> is_status_line e) tail)
   \<and> (\<exists>tail. effects (handleCommit_restart v c) =
        effects v @ [LogPrint (status_line c)]
          @ (if Height c mod 4320 = 0 then [PostToDiscord (progress_notice c)] else []) @ tail
      \<and> list_all (\<lambda>e. \<not> is_progress e \<and> \<not> is_status_line e) tail)
   \<and> is_status_line (LogPrint (status_line c))
   \<and> is_progress (PostToDiscord (progress_notice c))
   \<and> (status (tm_worker entries) = Running \<longrightarrow>
        effects (tm_worker entries) = concat (map (notices 1000) (commits_of entries)))"
proof (intro conjI impI)
  show "\<exists>tail. effects (handleCommit w c) =
        effects w @ [LogPrint (status_line c)]
          @ (if Height c mod 1000 = 0 then [PostToDiscord (progress_notice c)] else []) @ tail
      \<and> list_all (\<lambda>e. \<not> is_progress e \<and> \<not> is_status_line e) tail"
    using handleCommit_effects[of w c] by (simp add: notices_def)
  show "\<exists>tail. effects (handleCommit_restart v c) =
        effects v @ [LogPrint (status_line c)]
          @ (if Height c mod 4320 = 0 then [PostToDiscord (progress_notice c)] else []) @ tail
      \<and> list_all (\<lambda>e. \<not> is_progress e \<and> \<not> is_status_line e) tail"
    using handleCommit_restart_effects[of v c] by (simp add: notices_def)
  show "is_status_line (LogPrint (status_line c))" by simp
  show "is_progress (PostToDiscord (progress_notice c))"
    by (simp add: progress_notice_def)
next
  assume "status (tm_worker entries) = Running"
  then have "conflict_free (commits_of entries)"
    by (simp add: tm_worker_reconcile reconcile_Running_iff)
  then have "tm_worker entries = accepted (commits_of entries)"
    by (simp add: tm_worker_reconcile reconcile_conflict_free)
  then show "effects (tm_worker entries) = concat (map (notices 1000) (commits_of entries))"
    by (simp add: accepted_def)
qed

theorem status_line_and_progress_notice_witness:
  "status (tm_worker [commit_entry ''nodeA'' 2000 ''aa'', commit_entry ''nodeB'' 2001 ''ab'']) = Running
   \<and> effects (tm_worker [commit_entry ''nodeA'' 2000 ''aa'', commit_entry ''nodeB'' 2001 ''ab'']) =
     [LogPrint ''nodeA, at height 2000, has apphash aa'',
      PostToDiscord ''**nodeA**, at height **2000**, has apphash _aa_'',
      LogPrint ''nodeB, at height 2001, has apphash ab'']"
proof -
  have s: "status (tm_worker [commit_entry ''nodeA'' 2000 ''aa'', commit_entry ''nodeB'' 2001 ''ab'']) = Running"
    by code_simp
  have n: "concat (map (notices 1000)
      (commits_of [commit_entry ''nodeA'' 2000 ''aa'', commit_entry ''nodeB'' 2001 ''ab''])) =
     [LogPrint ''nodeA, at height 2000, has apphash aa'',
      PostToDiscord ''**nodeA**, at height **2000**, has apphash _aa_'',
      LogPrint ''nodeB, at height 2001, has apphash ab'']"
    by code_simp
  from status_line_and_progress_notice[where
      entries = "[commit_entry ''nodeA'' 2000 ''aa'', commit_entry ''nodeB'' 2001 ''ab'']"] s n
  show ?thesis by simp
qed

subsection \<open>Divergence in the current worker\<close>

lemma filter_notices:
  "filter is_alert (notices m c) = []"
  "filter is_fatal (notices m c) = []"
  "filter is_status_line (notices m c) = [LogPrint (status_line c)]"
  by (simp_all add: notices_def progress_notice_def)

lemma filter_accepted_effects:
  "filter is_alert (concat (map (notices m) cs)) = []"
  "filter is_fatal (concat (map (notices m) cs)) = []"
  "filter is_status_line (concat (map (notices m) cs)) = map (\<lambda>c. LogPrint (status_line c)) cs"
  by (induction cs) (simp_all add: filter_notices)

text \<open>
  Detection in the current worker: an input with two commit events at one height
  and different roots ends the process with exit status 1, after exactly one alert
  and one fatal message; the events handled are those up to the first event that
  disagrees with an earlier one, and it comes no later than the second event of
  the given pair.
\<close>

theorem divergence_detected_once:
  assumes "i < j" and "j < length (commits_of entries)"
    and "Height (commits_of entries ! i) = Height (commits_of entries ! j)"
    and "LogData.Root (commits_of entries ! i) \<noteq> LogData.Root (commits_of entries ! j)"
  shows "status (tm_worker entries) = Exit 1
    \<and> exit_code (status (tm_worker entries)) = Some 1
    \<and> length (filter is_alert (effects (tm_worker entries))) = 1
    \<and> length (filter is_fatal (effects (tm_worker entries))) = 1
    \<and> (\<exists>k\<le>j. conflict_free (take k (commits_of entries))
          \<and> \<not> agrees_with (commits_of entries ! k) (take k (commits_of entries))
          \<and> filter is_status_line (effects (tm_worker entries)) =
              map (\<lambda>c. LogPrint (status_line c)) (take (Suc k) (commits_of entries)))"
proof -
  let ?cs = "commits_of entries"
  have "\<not> conflict_free ?cs"
  proof
    assume "conflict_free ?cs"
    from conflict_free_pairwise[OF this, of "?cs ! i" "?cs ! j"] assms show False
      by simp
  qed
  from first_conflict[OF this] obtain pre c rest where
    cs: "?cs = pre @ c # rest" and cf: "conflict_free pre" and na: "\<not> agrees_with c pre"
    by blast
  have kj: "length pre \<le> j"
  proof (rule ccontr)
    assume "\<not> length pre \<le> j"
    then have "j < length pre" by simp
    with assms(1) have "?cs ! i \<in> set pre" "?cs ! j \<in> set pre"
      by (simp_all add: cs nth_append)
    from conflict_free_pairwise[OF cf this] assms(3,4) show False by simp
  qed
  have st: "tm_worker entries =
     \<lparr>rootCache = cache_of pre,
      effects = concat (map (notices 1000) pre) @ notices 1000 c
        @ [PostToDiscord (''@erwanor : '' @ mismatch_text (Height c) (reports_at (Height c) pre)),
           LogFatal (mismatch_text (Height c) (reports_at (Height c) pre))],
      status = Exit 1\<rparr>"
    using reconcile_first_conflict[OF cf na, of rest] by (simp add: tm_worker_reconcile cs)
  have t: "take (length pre) ?cs = pre" "?cs ! length pre = c"
    "take (Suc (length pre)) ?cs = pre @ [c]"
    by (simp_all add: cs)
  have "conflict_free (take (length pre) ?cs)
          \<and> \<not> agrees_with (?cs ! length pre) (take (length pre) ?cs)
          \<and> filter is_status_line (effects (tm_worker entries)) =
              map (\<lambda>c. LogPrint (status_line c)) (take (Suc (length pre)) ?cs)"
    unfolding t using cf na by (simp add: st filter_accepted_effects filter_notices)
  with kj have "\<exists>k\<le>j. conflict_free (take k ?cs)
          \<and> \<not> agrees_with (?cs ! k) (take k ?cs)
          \<and> filter is_status_line (effects (tm_worker entries)) =
              map (\<lambda>c. LogPrint (status_line c)) (take (Suc k) ?cs)"
    by blast
  moreover have "status (tm_worker entries) = Exit 1"
    "exit_code (status (tm_worker entries)) = Some 1"
    "length (filter is_alert (effects (tm_worker entries))) = 1"
    "length (filter is_fatal (effects (tm_worker entries))) = 1"
    by (simp_all add: st filter_accepted_effects filter_notices)
  ultimately show ?thesis by blast
qed

theorem divergence_detected_once_witness:
  "status (tm_worker [commit_entry ''nodeA'' 100 ''aa'', commit_entry ''nodeB'' 100 ''bb'',
      commit_entry ''nodeC'' 100 ''aa'', commit_entry ''nodeD'' 101 ''dd'']) = Exit 1
   \<and> length (filter is_alert (effects (tm_worker [commit_entry ''nodeA'' 100 ''aa'',
      commit_entry ''nodeB'' 100 ''bb'', commit_entry ''nodeC'' 100 ''aa'',
      commit_entry ''nodeD'' 101 ''dd'']))) = 1"
proof -
  have cs: "commits_of [commit_entry ''nodeA'' 100 ''aa'', commit_entry ''nodeB'' 100 ''bb'',
      commit_entry ''nodeC'' 100 ''aa'', commit_entry ''nodeD'' 101 ''dd''] =
    [\<lparr>Height = 100, Hash = ''0A1B'', LogData.Root = ''aa'', NumTxs = 0, LogData.PodName = ''nodeA''\<rparr>,
     \<lparr>Height = 100, Hash = ''0A1B'', LogData.Root = ''bb'', NumTxs = 0, LogData.PodName = ''nodeB''\<rparr>,
     \<lparr>Height = 100, Hash = ''0A1B'', LogData.Root = ''aa'', NumTxs = 0, LogData.PodName = ''nodeC''\<rparr>,
     \<lparr>Height = 101, Hash = ''0A1B'', LogData.Root = ''dd'', NumTxs = 0, LogData.PodName = ''nodeD''\<rparr>]"
    by code_simp
  from divergence_detected_once[where i = 1 and j = 2 and
      entries = "[commit_entry ''nodeA'' 100 ''aa'', commit_entry ''nodeB'' 100 ''bb'',
      commit_entry ''nodeC'' 100 ''aa'', commit_entry ''nodeD'' 101 ''dd'']"]
  show ?thesis by (simp add: cs)
qed

text \<open>
  Comparison in the current worker: when the height of the incoming event is
  cached, \<^verbatim>\<open>consistentRecords\<close> compares the incoming root with every cached
  report of the height; the report is appended when all of them agree, and
  otherwise the cache is left as it is and the process ends.
\<close>

theorem compares_every_report:
  assumes "rootCache w (Height c) = Some prev"
  shows "consistentRecords (report_of c) prev =
       list_all (\<lambda>r. RootHashRecord.Root r = LogData.Root c) prev
    \<and> handleCommit w c =
       (if list_all (\<lambda>r. RootHashRecord.Root r = LogData.Root c) prev
        then w\<lparr>rootCache := (rootCache w)(Height c \<mapsto> prev @ [report_of c]),
               effects := effects w @ notices 1000 c\<rparr>
        else w\<lparr>effects := effects w @ notices 1000 c
                 @ [PostToDiscord (''@erwanor : '' @ mismatch_text (Height c) prev),
                    LogFatal (mismatch_text (Height c) prev)],
               status := Exit 1\<rparr>)"
  using handleCommit_agree[OF assms] handleCommit_diverge[OF assms]
  by (simp add: consistentRecords_iff report_of_def)

theorem compares_every_report_witness:
  "status (handleCommit
      \<lparr>rootCache = [7 \<mapsto> [\<lparr>RootHashRecord.PodName = ''nodeA'', RootHashRecord.Root = ''aa''\<rparr>,
                          \<lparr>RootHashRecord.PodName = ''nodeB'', RootHashRecord.Root = ''bb''\<rparr>]],
       effects = [], status = Running\<rparr>
      \<lparr>Height = 7, Hash = ''00'', LogData.Root = ''aa'', NumTxs = 0, LogData.PodName = ''nodeC''\<rparr>)
    = Exit 1"
  using compares_every_report[where
      w = "\<lparr>rootCache = [7 \<mapsto> [\<lparr>RootHashRecord.PodName = ''nodeA'', RootHashRecord.Root = ''aa''\<rparr>,
                          \<lparr>RootHashRecord.PodName = ''nodeB'', RootHashRecord.Root = ''bb''\<rparr>]],
       effects = [], status = Running\<rparr>"
      and c = "\<lparr>Height = 7, Hash = ''00'', LogData.Root = ''aa'', NumTxs = 0, LogData.PodName = ''nodeC''\<rparr>"
      and prev = "[\<lparr>RootHashRecord.PodName = ''nodeA'', RootHashRecord.Root = ''aa''\<rparr>,
                          \<lparr>RootHashRecord.PodName = ''nodeB'', RootHashRecord.Root = ''bb''\<rparr>]"]
  by simp

text \<open>
  Heights in the current worker: a step leaves the cache untouched at every
  height other than the event's, and whether it accepts the event depends only on
  the entry cached for the event's height.
\<close>

theorem heights_do_not_interact:
  "(h \<noteq> Height c \<longrightarrow> rootCache (handleCommit w c) h = rootCache w h)
   \<and> (rootCache w1 (Height c) = rootCache w2 (Height c) \<and> status w1 = status w2 \<longrightarrow>
        status (handleCommit w1 c) = status (handleCommit w2 c)
        \<and> rootCache (handleCommit w1 c) (Height c) = rootCache (handleCommit w2 c) (Height c))"
proof (intro conjI impI)
  assume "h \<noteq> Height c"
  then show "rootCache (handleCommit w c) h = rootCache w h"
    by (simp add: handleCommit_def Let_def emit_def split: option.splits)
next
  assume a: "rootCache w1 (Height c) = rootCache w2 (Height c) \<and> status w1 = status w2"
  then show "status (handleCommit w1 c) = status (handleCommit w2 c)"
    by (simp add: handleCommit_def Let_def emit_def split: option.splits)
  from a show "rootCache (handleCommit w1 c) (Height c) = rootCache (handleCommit w2 c) (Height c)"
    by (simp add: handleCommit_def Let_def emit_def split: option.splits)
qed

theorem heights_do_not_interact_witness:
  "rootCache (tm_step (tm_worker [commit_entry ''nodeA'' 20 ''aa'', commit_entry ''nodeB'' 30 ''bb''])
      (commit_entry ''nodeC'' 20 ''aa'')) 30 =
   rootCache (tm_worker [commit_entry ''nodeA'' 20 ''aa'', commit_entry ''nodeB'' 30 ''bb'']) 30"
proof -
  have c: "commit_of (commit_entry ''nodeC'' 20 ''aa'') =
     Some \<lparr>Height = 20, Hash = ''0A1B'', LogData.Root = ''aa'', NumTxs = 0, LogData.PodName = ''nodeC''\<rparr>"
    by code_simp
  from heights_do_not_interact[where h = 30 and
      c = "\<lparr>Height = 20, Hash = ''0A1B'', LogData.Root = ''aa'', NumTxs = 0, LogData.PodName = ''nodeC''\<rparr>"
      and w = "tm_worker [commit_entry ''nodeA'' 20 ''aa'', commit_entry ''nodeB'' 30 ''bb'']"]
  show ?thesis by (simp add: tm_step_commit_of c)
qed

section \<open>The chain-restart branch of \<^verbatim>\<open>src/main.go\<close>\<close>

text \<open>
  C10. Every index the worker applies to a height's list of reports is in range,
  so that processing never aborts; in particular the chain-restart branch of
  \<^verbatim>\<open>src/main.go\<close> reads the first two reports of the height, which should
  therefore always be there. The code does not keep this: a height that was
  reported once, below a \<^verbatim>\<open>confirmedHeight\<close> set by a later height, has one report,
  and a second report for it ends the process with an index panic.
\<close>

theorem restart_branch_index_panic:
  "status (tm_worker_restart
     [commit_entry ''nodeA'' 5 ''aa'', commit_entry ''nodeB'' 5 ''aa'',
      commit_entry ''nodeA'' 3 ''bb'', commit_entry ''nodeB'' 3 ''bb'']) = IndexPanic 1 1"
  by code_simp

text \<open>
  C1. An input with two commit events at one height and different roots should
  end in exactly one divergence alert and stop the worker. In \<^verbatim>\<open>src/main.go\<close> a
  differing root at a height below \<^verbatim>\<open>confirmedHeight\<close> is taken for a chain
  restart: nodeC reports ff at height 10 where nodeA and nodeB reported aa, no alert
  is raised, and the worker goes on to the next event.
\<close>

theorem restart_branch_hides_divergence:
  "status (tm_worker_restart
     [commit_entry ''nodeA'' 10 ''aa'', commit_entry ''nodeB'' 10 ''aa'',
      commit_entry ''nodeA'' 11 ''bb'', commit_entry ''nodeB'' 11 ''bb'',
      commit_entry ''nodeC'' 10 ''ff'', commit_entry ''nodeC'' 12 ''cc'']) = Running
   \<and> effects (tm_worker_restart
     [commit_entry ''nodeA'' 10 ''aa'', commit_entry ''nodeB'' 10 ''aa'',
      commit_entry ''nodeA'' 11 ''bb'', commit_entry ''nodeB'' 11 ''bb'',
      commit_entry ''nodeC'' 10 ''ff'', commit_entry ''nodeC'' 12 ''cc'']) =
     [LogPrint ''nodeA, at height 10, has apphash aa'',
      LogPrint ''nodeB, at height 10, has apphash aa'',
      LogPrint ''nodeA, at height 11, has apphash bb'',
      LogPrint ''nodeB, at height 11, has apphash bb'',
      LogPrint ''nodeC, at height 10, has apphash ff'',
      PostToDiscord
        ''detected chain restart, current height=10, previous tip: height=11, nodeA:aa and nodeB:aa'',
      LogPrint ''nodeC, at height 12, has apphash cc'']"
  by code_simp

text \<open>
  C2. When the height of the incoming event is cached, the incoming root should be
  compared with every cached report and stored only when all agree. In
  \<^verbatim>\<open>src/main.go\<close> the chain-restart branch runs before any comparison: nodeC's
  root cc replaces the reports aa of nodeA and nodeB at height 3.
\<close>

theorem restart_branch_stores_without_comparing:
  "rootCache (tm_worker_restart
     [commit_entry ''nodeA'' 3 ''aa'', commit_entry ''nodeB'' 3 ''aa'',
      commit_entry ''nodeA'' 5 ''bb'', commit_entry ''nodeB'' 5 ''bb'']) 3 =
     Some [\<lparr>RootHashRecord.PodName = ''nodeA'', RootHashRecord.Root = ''aa''\<rparr>,
           \<lparr>RootHashRecord.PodName = ''nodeB'', RootHashRecord.Root = ''aa''\<rparr>]
   \<and> rootCache (tm_worker_restart
     [commit_entry ''nodeA'' 3 ''aa'', commit_entry ''nodeB'' 3 ''aa'',
      commit_entry ''nodeA'' 5 ''bb'', commit_entry ''nodeB'' 5 ''bb'',
      commit_entry ''nodeC'' 3 ''cc'']) 3 =
     Some [\<lparr>RootHashRecord.PodName = ''nodeC'', RootHashRecord.Root = ''cc''\<rparr>]
   \<and> status (tm_worker_restart
     [commit_entry ''nodeA'' 3 ''aa'', commit_entry ''nodeB'' 3 ''aa'',
      commit_entry ''nodeA'' 5 ''bb'', commit_entry ''nodeB'' 5 ''bb'',
      commit_entry ''nodeC'' 3 ''cc'']) = Running"
  by code_simp

text \<open>
  C7. Events at different heights should not interact. In \<^verbatim>\<open>src/main.go\<close> an
  event at height 20 removes the entry cached for height 30, and the same event
  against the same entry for height 20 is fatal or not depending on whether height
  30 has been confirmed in between.
\<close>

theorem restart_branch_couples_heights:
  "rootCache (tm_worker_restart
     [commit_entry ''nodeA'' 20 ''aa'', commit_entry ''nodeB'' 20 ''aa'',
      commit_entry ''nodeA'' 30 ''bb'', commit_entry ''nodeB'' 30 ''bb'']) 30 =
     Some [\<lparr>RootHashRecord.PodName = ''nodeA'', RootHashRecord.Root = ''bb''\<rparr>,
           \<lparr>RootHashRecord.PodName = ''nodeB'', RootHashRecord.Root = ''bb''\<rparr>]
   \<and> rootCache (tm_worker_restart
     [commit_entry ''nodeA'' 20 ''aa'', commit_entry ''nodeB'' 20 ''aa'',
      commit_entry ''nodeA'' 30 ''bb'', commit_entry ''nodeB'' 30 ''bb'',
      commit_entry ''nodeC'' 20 ''cc'']) 30 = None
   \<and> rootCache (tm_worker_restart
     [commit_entry ''nodeA'' 20 ''aa'', commit_entry ''nodeB'' 20 ''aa'']) 20 =
     rootCache (tm_worker_restart
     [commit_entry ''nodeA'' 20 ''aa'', commit_entry ''nodeB'' 20 ''aa'',
      commit_entry ''nodeA'' 30 ''bb'', commit_entry ''nodeB'' 30 ''bb'']) 20
   \<and> status (tm_worker_restart
     [commit_entry ''nodeA'' 20 ''aa'', commit_entry ''nodeB'' 20 ''aa'',
      commit_entry ''nodeC'' 20 ''cc'']) = Exit 1
   \<and> status (tm_worker_restart
     [commit_entry ''nodeA'' 20 ''aa'', commit_entry ''nodeB'' 20 ''aa'',
      commit_entry ''nodeA'' 30 ''bb'', commit_entry ''nodeB'' 30 ''bb'',
      commit_entry ''nodeC'' 20 ''cc'']) = Running"
  by code_simp

section \<open>The alert of the current worker\<close>

text \<open>
  C5. On a divergence the alert names the height and every known pair of source
  and root at that height, the pair of the incoming event included. The code
  passes only the cached reports to \<^verbatim>\<open>knownRootHashesString\<close>: on the example of
  the specification (nodeA and nodeB report aa, nodeC reports bb at height 100) the
  alert names nodeA and nodeB and leaves nodeC out.
\<close>

theorem alert_leaves_incoming_report_out:
  "effects (tm_worker
     [commit_entry ''nodeA'' 100 ''aa'', commit_entry ''nodeB'' 100 ''aa'',
      commit_entry ''nodeC'' 100 ''bb'']) =
   [LogPrint ''nodeA, at height 100, has apphash aa'',
    LogPrint ''nodeB, at height 100, has apphash aa'',
    LogPrint ''nodeC, at height 100, has apphash bb'',
    PostToDiscord
      ''@erwanor : ROOT MISMATCH DETECTED AT BLOCK 100\<newline>nodeA: aa\<newline>nodeB: aa\<newline>'',
    LogFatal ''ROOT MISMATCH DETECTED AT BLOCK 100\<newline>nodeA: aa\<newline>nodeB: aa\<newline>'']"
  by code_simp

end
